theory Spec2Isabelle
  imports Main
begin

section \<open>The routing store, as \<^verbatim>\<open>res_digitmap.c\<close> sees it\<close>

text \<open>
  \<^verbatim>\<open>res_digitmap.c\<close> reads the dialplan through the functions of \<^verbatim>\<open>asterisk/pbx.h\<close>.
  An extension is what \<^verbatim>\<open>ast_get_extension_name\<close> and \<^verbatim>\<open>ast_get_extension_priority\<close>
  return of it; a context is the sequence \<^verbatim>\<open>ast_walk_context_extensions\<close> enumerates and
  the sequence \<^verbatim>\<open>ast_context_includes_get\<close> indexes (each include by the string
  \<^verbatim>\<open>ast_get_include_name\<close> returns).
\<close>

record ast_exten =
  exten_name :: string
  exten_priority :: int

record ast_context =
  ctx_extensions :: "ast_exten list"
  ctx_includes :: "string list"

text \<open>
  The store itself, the ignore-pattern predicate and the constant \<^verbatim>\<open>AST_PBX_MAX_STACK\<close> are
  declared in \<^verbatim>\<open>asterisk/pbx.h\<close>, which is not part of the repository: they are parameters
  of the model. \<^verbatim>\<open>ast_ignore_pattern\<close> returns an \<^verbatim>\<open>int\<close> used as a truth value.
\<close>

record pbx =
  ast_context_find :: "string \<Rightarrow> ast_context option"
  ast_ignore_pattern :: "string \<Rightarrow> string \<Rightarrow> bool"
  AST_PBX_MAX_STACK :: int

section \<open>Diagnostics\<close>

text \<open>
  One constructor for each \<^verbatim>\<open>ast_log\<close> call of \<^verbatim>\<open>generate_digit_map\<close>, with the arguments
  of its format string. The \<^verbatim>\<open>ast_debug\<close> calls have no effect on the result and are left out.
\<close>

datatype diag =
    NoSuchContext string
  | DialplanInvalid string
  | PeriodInBrackets string
  | CannotTranslate string
  | NoSpaceLeft
  | MaxDepthExceeded
  | EmptyInclude
  | CircularInclude string string

section \<open>State\<close>

text \<open>
  The memory the recursive calls share: the counter of \<^verbatim>\<open>struct map_geninfo\<close>, the array
  \<^verbatim>\<open>includes[]\<close> (a \<^verbatim>\<open>NULL\<close> entry is \<open>None\<close>), the output buffer and the log.

  The buffer is kept as the C string that starts at the beginning of the array: the bytes
  before the terminating NUL that the last \<^verbatim>\<open>snprintf\<close> wrote. \<open>fault\<close> records a write to
  \<^verbatim>\<open>includes[]\<close> outside the array, which C leaves undefined.
\<close>

record genstate =
  includecount :: int
  includes_stack :: "string option list"
  mem :: string
  logs :: "diag list"
  fault :: bool

text \<open>The locals \<^verbatim>\<open>buf\<close> (as an offset from the start of the array), \<^verbatim>\<open>len\<close>, \<^verbatim>\<open>res\<close>.\<close>

record frame =
  buf :: nat
  len :: nat
  res :: int

text \<open>
  The bracket counters of one iteration of the extension loop. \<^verbatim>\<open>ignorepat\<close>, the fourth
  local of that iteration, is passed on its own.
\<close>

record patvars =
  in_pattern :: int
  current_pattern_items :: int
  contains_range :: int

definition BUF_SIZE :: nat where
  "BUF_SIZE = 2048"

definition warn :: "diag \<Rightarrow> genstate \<Rightarrow> genstate" where
  "warn d st = st\<lparr>logs := logs st @ [d]\<rparr>"

section \<open>The bounded append\<close>

text \<open>
  \<^verbatim>\<open>snprintf(buf, len, ...)\<close> on the formatted text \<open>s\<close>: with \<^verbatim>\<open>len > 0\<close> it stores the first
  \<^verbatim>\<open>len - 1\<close> bytes of \<open>s\<close> at the cursor and a NUL after them; it returns the length of \<open>s\<close>.
  The cursor never lies behind the terminator of the string; if it did, the string seen from
  the start of the array would not change.
\<close>

definition snprintf :: "string \<Rightarrow> nat \<Rightarrow> nat \<Rightarrow> string \<Rightarrow> string \<times> nat" where
  "snprintf m b n s =
     (if n = 0 \<or> length m < b then m else take b m @ take (n - 1) s, length s)"

text \<open>
  The macro \<^verbatim>\<open>buf_append\<close>. The first component tells whether the macro fell through
  (\<open>True\<close>) or executed its \<^verbatim>\<open>break\<close> (\<open>False\<close>).
\<close>

definition buf_append :: "string \<Rightarrow> frame \<Rightarrow> genstate \<Rightarrow> bool \<times> frame \<times> genstate" where
  "buf_append s fr st =
     (let (m, bytes) = snprintf (mem st) (buf fr) (len fr) s in
      if bytes \<ge> len fr then (False, fr\<lparr>res := - 1\<rparr>, st\<lparr>mem := m\<rparr>)
      else (True, fr\<lparr>buf := buf fr + bytes, len := len fr - bytes\<rparr>, st\<lparr>mem := m\<rparr>))"

section \<open>Translating one pattern\<close>

text \<open>
  The final \<^verbatim>\<open>else\<close> branch of the character chain, before its \<^verbatim>\<open>buf_append\<close>: the
  bookkeeping of \<^verbatim>\<open>[\<close> and \<^verbatim>\<open>]\<close>. It returns the new counters and the warnings it
  logs, in order. \<open>ename\<close> is \<^verbatim>\<open>ast_get_extension_name(e)\<close>.
\<close>

definition track_brackets :: "string \<Rightarrow> char \<Rightarrow> patvars \<Rightarrow> patvars \<times> diag list" where
  "track_brackets ename c pv =
     (if c = CHR ''['' then
        (let ip = in_pattern pv + 1;
             (ip', ds) = (if ip > 1 then (1, [DialplanInvalid ename]) else (ip, []))
         in (pv\<lparr>in_pattern := ip', current_pattern_items := 0, contains_range := 0\<rparr>, ds))
      else if c = CHR '']'' then
        (let ip = in_pattern pv - 1;
             (ip', ds) = (if ip < 0 then (0, [DialplanInvalid ename]) else (ip, []));
             ds' = (if contains_range pv \<noteq> 0 \<and> current_pattern_items pv > 1
                    then [CannotTranslate ename] else [])
         in (pv\<lparr>in_pattern := ip', current_pattern_items := 0, contains_range := 0\<rparr>, ds @ ds'))
      else if in_pattern pv \<noteq> 0 then
        (if c = CHR ''.'' then (pv, [PeriodInBrackets ename])
         else if c = CHR ''-'' then
           (pv\<lparr>current_pattern_items := current_pattern_items pv - 1,
               contains_range := contains_range pv + 1\<rparr>, [])
         else (pv\<lparr>current_pattern_items := current_pattern_items pv + 1\<rparr>, []))
      else (pv, []))"

text \<open>The character chain \<^verbatim>\<open>if (*name == 'N') ... else ...\<close> of the inner loop.\<close>

definition pattern_char ::
  "string \<Rightarrow> char \<Rightarrow> patvars \<Rightarrow> frame \<Rightarrow> genstate \<Rightarrow> bool \<times> patvars \<times> frame \<times> genstate" where
  "pattern_char ename c pv fr st =
     (if c = CHR ''N'' then (let (ok, fr', st') = buf_append ''[2-9]'' fr st in (ok, pv, fr', st'))
      else if c = CHR ''Z'' then (let (ok, fr', st') = buf_append ''[1-9]'' fr st in (ok, pv, fr', st'))
      else if c = CHR ''X'' then (let (ok, fr', st') = buf_append ''x'' fr st in (ok, pv, fr', st'))
      else if c = CHR ''!'' then (let (ok, fr', st') = buf_append ''S0'' fr st in (ok, pv, fr', st'))
      else
        (let (pv', ds) = track_brackets ename c pv;
             (ok, fr', st') = buf_append [c] fr (st\<lparr>logs := logs st @ ds\<rparr>)
         in (ok, pv', fr', st')))"

text \<open>
  The two places where the second-dial-tone comma is appended: the first when
  \<open>want\<close> is \<open>prefix \<noteq> []\<close>, the second when it is \<open>prefix = []\<close>. The second component
  is the new value of \<^verbatim>\<open>ignorepat\<close>.
\<close>

definition comma_step ::
  "bool \<Rightarrow> bool \<Rightarrow> frame \<Rightarrow> genstate \<Rightarrow> bool \<times> bool \<times> frame \<times> genstate" where
  "comma_step want ignorepat fr st =
     (if want \<and> ignorepat then
        (let (ok, fr', st') = buf_append '','' fr st
         in (ok, (if ok then False else ignorepat), fr', st'))
      else (True, ignorepat, fr, st))"

text \<open>
  The loop \<^verbatim>\<open>while (*name)\<close>. A \<^verbatim>\<open>break\<close> of \<^verbatim>\<open>buf_append\<close> inside it leaves this loop
  only: the extension loop goes on with the next extension, \<^verbatim>\<open>res\<close> being \<open>-1\<close>.
\<close>

fun pattern_loop ::
  "string \<Rightarrow> string \<Rightarrow> string \<Rightarrow> bool \<Rightarrow> patvars \<Rightarrow> frame \<Rightarrow> genstate \<Rightarrow> frame \<times> genstate" where
  "pattern_loop prefix ename [] ign pv fr st = (fr, st)"
| "pattern_loop prefix ename (c # cs) ign pv fr st =
     (let (ok1, ign1, fr1, st1) = comma_step (prefix \<noteq> []) ign fr st in
      if \<not> ok1 then (fr1, st1) else
      let (ok2, pv2, fr2, st2) = pattern_char ename c pv fr1 st1 in
      if \<not> ok2 then (fr2, st2) else
      let (ok3, ign3, fr3, st3) = comma_step (prefix = []) ign1 fr2 st2 in
      if \<not> ok3 then (fr3, st3) else
      pattern_loop prefix ename cs ign3 pv2 fr3 st3)"

section \<open>The extensions of one context\<close>

text \<open>
  The loop over \<^verbatim>\<open>includes[0 .. includecount - 1]\<close> that asks \<^verbatim>\<open>ast_ignore_pattern\<close>
  until one context answers yes.
\<close>

definition ignorepat_check :: "pbx \<Rightarrow> genstate \<Rightarrow> string \<Rightarrow> bool" where
  "ignorepat_check db st firstchar =
     list_ex (\<lambda>e. case e of None \<Rightarrow> False | Some n \<Rightarrow> ast_ignore_pattern db n firstchar)
       (take (nat (includecount st)) (includes_stack st))"

definition special_exten :: "string \<Rightarrow> bool" where
  "special_exten name \<longleftrightarrow> name = ''a'' \<or> name = ''i'' \<or> name = ''s'' \<or> name = ''t''"

text \<open>\<^verbatim>\<open>if (*name == '_') name++\<close>.\<close>

definition strip_sentinel :: "string \<Rightarrow> string" where
  "strip_sentinel name = (case name of [] \<Rightarrow> [] | c # cs \<Rightarrow> if c = CHR ''_'' then cs else name)"

text \<open>
  \<^verbatim>\<open>firstchar[0] = !ast_strlen_zero(prefix) ? *prefix : *name\<close>, in a two-byte array
  initialised to the empty string: it is empty when the character stored is the NUL that
  ends an empty \<^verbatim>\<open>name\<close>.
\<close>

definition firstchar_of :: "string \<Rightarrow> string \<Rightarrow> string" where
  "firstchar_of prefix name = (if prefix \<noteq> [] then take 1 prefix else take 1 name)"

text \<open>
  The loop \<^verbatim>\<open>while ((e = ast_walk_context_extensions(c, e)))\<close>. The two appends outside the
  inner loop leave this loop when they fail.
\<close>

fun exten_loop ::
  "pbx \<Rightarrow> string \<Rightarrow> ast_exten list \<Rightarrow> frame \<Rightarrow> genstate \<Rightarrow> frame \<times> genstate" where
  "exten_loop db prefix [] fr st = (fr, st)"
| "exten_loop db prefix (e # es) fr st =
     (if special_exten (exten_name e) then exten_loop db prefix es fr st
      else if exten_priority e \<noteq> 1 then exten_loop db prefix es fr st
      else
        (let name = strip_sentinel (exten_name e);
             ign = ignorepat_check db st (firstchar_of prefix name);
             (ok1, fr1, st1) = buf_append ''|'' fr st in
         if \<not> ok1 then (fr1, st1) else
         let (ok2, fr2, st2) = buf_append prefix fr1 st1 in
         if \<not> ok2 then (fr2, st2) else
         let (fr3, st3) = pattern_loop prefix (exten_name e) name ign
               \<lparr>in_pattern = 0, current_pattern_items = 0, contains_range = 0\<rparr> fr2 st2
         in exten_loop db prefix es fr3 st3))"

section \<open>Includes\<close>

text \<open>\<^verbatim>\<open>strcasecmp(a, b) == 0\<close>, on ASCII.\<close>

definition tolower :: "char \<Rightarrow> char" where
  "tolower c = (let n = (of_char c :: nat) in if 65 \<le> n \<and> n \<le> 90 then char_of (n + 32) else c)"

definition strcasecmp_eq :: "string \<Rightarrow> string \<Rightarrow> bool" where
  "strcasecmp_eq a b \<longleftrightarrow> map tolower a = map tolower b"

text \<open>
  \<^verbatim>\<open>p = strchr(s, c); if (p) *p++ = '\0';\<close>: the string cut at the first \<open>c\<close>, and what
  follows that \<open>c\<close> (\<open>None\<close> when \<^verbatim>\<open>strchr\<close> returns \<^verbatim>\<open>NULL\<close>).
\<close>

definition cut_at :: "char \<Rightarrow> string \<Rightarrow> string \<times> string option" where
  "cut_at c s =
     (if c \<in> set s then (takeWhile (\<lambda>x. x \<noteq> c) s, Some (tl (dropWhile (\<lambda>x. x \<noteq> c) s)))
      else (s, None))"

text \<open>
  The parsing of an include name into \<^verbatim>\<open>includename\<close> and \<^verbatim>\<open>tmp2\<close>. \<^verbatim>\<open>tmp2\<close> starts as
  \<^verbatim>\<open>""\<close>; when the name has a first \<^verbatim>\<open>|\<close> it is assigned the result of the second
  \<^verbatim>\<open>strchr\<close>, which is \<^verbatim>\<open>NULL\<close> when there is no second \<^verbatim>\<open>|\<close>.
\<close>

definition parse_include :: "string \<Rightarrow> string \<times> string option" where
  "parse_include raw =
     (let (n1, rest) = cut_at (CHR ''|'') raw;
          tmp2 = (case rest of None \<Rightarrow> Some [] | Some r \<Rightarrow> snd (cut_at (CHR ''|'') r));
          (n2, _) = cut_at (CHR '','') n1
      in (n2, tmp2))"

text \<open>
  \<^verbatim>\<open>snprintf(newprefix, sizeof(newprefix), "%s%s", prefix, tmp2)\<close> with
  \<^verbatim>\<open>char newprefix[32]\<close>. ISO C leaves \<^verbatim>\<open>%s\<close> of a \<^verbatim>\<open>NULL\<close> pointer undefined; the GNU C
  library prints \<^verbatim>\<open>(null)\<close>, which is what the model does.
\<close>

definition render_str :: "string option \<Rightarrow> string" where
  "render_str p = (case p of None \<Rightarrow> ''(null)'' | Some s \<Rightarrow> s)"

definition make_newprefix :: "string \<Rightarrow> string option \<Rightarrow> string" where
  "make_newprefix prefix tmp2 = fst (snprintf [] 0 32 (prefix @ render_str tmp2))"

text \<open>The loop \<^verbatim>\<open>for (x = 0; x < geninfo->includecount; x++)\<close> that sets \<^verbatim>\<open>dupe\<close>.\<close>

definition dupe_check :: "genstate \<Rightarrow> string \<Rightarrow> bool" where
  "dupe_check st includename =
     list_ex (\<lambda>e. case e of None \<Rightarrow> False | Some n \<Rightarrow> strcasecmp_eq n includename)
       (take (nat (includecount st)) (includes_stack st))"

text \<open>
  \<^verbatim>\<open>includes[geninfo->includecount] = v\<close>: a store outside the array sets \<open>fault\<close>.
\<close>

definition includes_store :: "string option \<Rightarrow> genstate \<Rightarrow> genstate" where
  "includes_store v st =
     (if 0 \<le> includecount st \<and> includecount st < int (length (includes_stack st))
      then st\<lparr>includes_stack := (includes_stack st)[nat (includecount st) := v]\<rparr>
      else st\<lparr>fault := True\<rparr>)"

definition push_context :: "string \<Rightarrow> genstate \<Rightarrow> genstate" where
  "push_context context st =
     (let st1 = includes_store (Some context) st in st1\<lparr>includecount := includecount st1 + 1\<rparr>)"

definition pop_context :: "genstate \<Rightarrow> genstate" where
  "pop_context st = includes_store None (st\<lparr>includecount := includecount st - 1\<rparr>)"

section \<open>The recursive generator\<close>

text \<open>\<^verbatim>\<open>if (!prefix) prefix = ""\<close>.\<close>

definition prefix_or_empty :: "string option \<Rightarrow> string" where
  "prefix_or_empty prefix0 = (case prefix0 of None \<Rightarrow> [] | Some p \<Rightarrow> p)"

text \<open>
  The extension loop of a call, from \<^verbatim>\<open>res = 0\<close> and the caller's \<^verbatim>\<open>buf\<close> and \<^verbatim>\<open>len\<close>,
  and the warning that follows it. \<^verbatim>\<open>len\<close> is a \<^verbatim>\<open>size_t\<close>, so \<^verbatim>\<open>len <= 0\<close> is
  \<^verbatim>\<open>len == 0\<close>.
\<close>

definition walk_extensions ::
  "pbx \<Rightarrow> string \<Rightarrow> ast_context \<Rightarrow> nat \<Rightarrow> nat \<Rightarrow> genstate \<Rightarrow> frame \<times> genstate" where
  "walk_extensions db prefix c buf0 len0 st =
     (let (fr, st') = exten_loop db prefix (ctx_extensions c) \<lparr>buf = buf0, len = len0, res = 0\<rparr> st
      in (fr, if res fr \<noteq> 0 \<and> len fr = 0 then warn NoSpaceLeft st' else st'))"

text \<open>
  \<^verbatim>\<open>res = generate_digit_map(...); if (res > 0) { buf += res; len -= res; }\<close> in the
  include loop, \<open>child\<close> being what the recursive call returned.
\<close>

definition absorb :: "frame \<Rightarrow> int \<times> genstate \<Rightarrow> frame \<times> genstate" where
  "absorb fr child =
     (let r = fst child in
      (if r > 0 then fr\<lparr>buf := buf fr + nat r, len := len fr - nat r, res := r\<rparr>
       else fr\<lparr>res := r\<rparr>, snd child))"

text \<open>
  The end of a call: the context is removed from the stack, and the value returned is
  \<^verbatim>\<open>res < 0 ? res : (buf - start)\<close>.
\<close>

definition finish :: "nat \<Rightarrow> frame \<times> genstate \<Rightarrow> int \<times> genstate" where
  "finish start fs =
     (if res (fst fs) < 0 then res (fst fs) else int (buf (fst fs)) - int start,
      pop_context (snd fs))"

text \<open>
  \<^verbatim>\<open>generate_digit_map\<close> and its loop over the includes of the context. \<^verbatim>\<open>ast_strdup\<close> is
  taken to succeed and \<^verbatim>\<open>ast_context_includes_get\<close> to return an include for every index
  below \<^verbatim>\<open>ast_context_includes_count\<close>. \<^verbatim>\<open>len\<close> is a \<^verbatim>\<open>size_t\<close>; the model subtracts on
  \<open>nat\<close>, and no subtraction of the source goes below zero (lemma \<open>room_inv\<close>).
  The loop is left when \<^verbatim>\<open>res >= 0\<close> fails, and by the \<^verbatim>\<open>break\<close> that follows a recursive
  call with a negative result.
\<close>

function (domintros) generate_digit_map ::
    "pbx \<Rightarrow> string option \<Rightarrow> string \<Rightarrow> nat \<Rightarrow> nat \<Rightarrow> genstate \<Rightarrow> int \<times> genstate"
  and include_loop ::
    "pbx \<Rightarrow> string \<Rightarrow> string \<Rightarrow> string list \<Rightarrow> frame \<times> genstate \<Rightarrow> frame \<times> genstate"
where
  "generate_digit_map db prefix0 context start len0 st =
     (case ast_context_find db context of
        None \<Rightarrow> (- 1, warn (NoSuchContext context) st)
      | Some c \<Rightarrow>
          finish start
            (include_loop db (prefix_or_empty prefix0) context (ctx_includes c)
               (walk_extensions db (prefix_or_empty prefix0) c start len0
                  (push_context context st))))"
| "include_loop db prefix context [] fs = fs"
| "include_loop db prefix context (i # is) (fr, st) =
     (if res fr < 0 then (fr, st)
      else if includecount st \<ge> AST_PBX_MAX_STACK db then
        include_loop db prefix context is (fr, warn MaxDepthExceeded st)
      else if fst (parse_include i) = [] then
        include_loop db prefix context is (fr, warn EmptyInclude st)
      else if dupe_check st (fst (parse_include i)) then
        include_loop db prefix context is (fr, warn (CircularInclude i context) st)
      else
        (let child = generate_digit_map db
                       (Some (make_newprefix prefix (snd (parse_include i))))
                       (fst (parse_include i)) (buf fr) (len fr) st
         in if fst child < 0 then absorb fr child
            else include_loop db prefix context is (absorb fr child)))"
  by pat_completeness auto

section \<open>The driver\<close>

text \<open>
  \<^verbatim>\<open>generate_digit_map_all\<close>: its return value, the text it sends to \<^verbatim>\<open>ast_cli\<close> (if any)
  and the final state. The array \<^verbatim>\<open>includes[]\<close> is not initialised by the source; its
  entries are \<^verbatim>\<open>NULL\<close> here; the source reads the entries below \<^verbatim>\<open>includecount\<close>
  only, which the calls in progress have written.
\<close>

definition initial_state :: "pbx \<Rightarrow> genstate" where
  "initial_state db =
     \<lparr>includecount = 0, includes_stack = replicate (nat (AST_PBX_MAX_STACK db)) None,
      mem = [], logs = [], fault = False\<rparr>"

definition generate_digit_map_all :: "pbx \<Rightarrow> string \<Rightarrow> int \<times> string option \<times> genstate" where
  "generate_digit_map_all db context_name =
     (let (r, st) = generate_digit_map db None context_name 0 BUF_SIZE (initial_state db) in
      if r \<le> 0 then (r, None, st) else (0, Some (drop 1 (mem st) @ [CHR 0x0A]), st))"

section \<open>Closed forms\<close>

text \<open>
  The table of the pattern translator (section 4.2 of the specification) as a function on
  one character, and its extension to a pattern.
\<close>

definition translate_char :: "char \<Rightarrow> string" where
  "translate_char c =
     (if c = CHR ''N'' then ''[2-9]''
      else if c = CHR ''Z'' then ''[1-9]''
      else if c = CHR ''X'' then ''x''
      else if c = CHR ''!'' then ''S0''
      else [c])"

definition translate :: "string \<Rightarrow> string" where
  "translate name = concat (map translate_char name)"

text \<open>
  What \<open>pattern_loop\<close> appends for a pattern when every append fits (lemma
  \<open>pattern_loop_fits\<close>): the translation, with the comma of the second dial tone before the
  first character (non-empty prefix) or after its translation (empty prefix).
\<close>

definition comma_text :: "bool \<Rightarrow> bool \<Rightarrow> string" where
  "comma_text want ign = (if want \<and> ign then '','' else [])"

definition pattern_text :: "string \<Rightarrow> bool \<Rightarrow> string \<Rightarrow> string" where
  "pattern_text prefix ign name =
     (case name of
        [] \<Rightarrow> []
      | c # cs \<Rightarrow>
          (if prefix \<noteq> [] \<and> ign then '','' else []) @ translate_char c @
          (if prefix = [] \<and> ign then '','' else []) @ translate cs)"

text \<open>
  The counters after one character and the warnings logged for it: \<^verbatim>\<open>N\<close>, \<^verbatim>\<open>Z\<close>, \<^verbatim>\<open>X\<close>
  and \<^verbatim>\<open>!\<close> never reach the bookkeeping of brackets. \<open>pattern_diags\<close> collects the
  warnings of a whole pattern.
\<close>

definition char_track :: "string \<Rightarrow> char \<Rightarrow> patvars \<Rightarrow> patvars \<times> diag list" where
  "char_track ename c pv =
     (if c = CHR ''N'' \<or> c = CHR ''Z'' \<or> c = CHR ''X'' \<or> c = CHR ''!'' then (pv, [])
      else track_brackets ename c pv)"

fun pattern_diags :: "string \<Rightarrow> string \<Rightarrow> patvars \<Rightarrow> diag list" where
  "pattern_diags ename [] pv = []"
| "pattern_diags ename (c # cs) pv =
     snd (char_track ename c pv) @ pattern_diags ename cs (fst (char_track ename c pv))"

text \<open>
  The extensions the extension loop does not skip, and what it appends and logs for one
  of them when every append fits (lemma \<open>exten_loop_fits\<close>).
\<close>

definition wanted :: "ast_exten \<Rightarrow> bool" where
  "wanted e \<longleftrightarrow> \<not> special_exten (exten_name e) \<and> exten_priority e = 1"

definition exten_text :: "pbx \<Rightarrow> genstate \<Rightarrow> string \<Rightarrow> ast_exten \<Rightarrow> string" where
  "exten_text db st prefix e =
     (let name = strip_sentinel (exten_name e)
      in ''|'' @ prefix @
         pattern_text prefix (ignorepat_check db st (firstchar_of prefix name)) name)"

definition exten_diags :: "ast_exten \<Rightarrow> diag list" where
  "exten_diags e =
     pattern_diags (exten_name e) (strip_sentinel (exten_name e))
       \<lparr>in_pattern = 0, current_pattern_items = 0, contains_range = 0\<rparr>"

text \<open>The cursor after \<open>n\<close> more bytes, and the buffer after the text \<open>s\<close> was added to it.\<close>

definition advance :: "nat \<Rightarrow> frame \<Rightarrow> frame" where
  "advance n fr = fr\<lparr>buf := buf fr + n, len := len fr - n\<rparr>"

definition emit :: "string \<Rightarrow> genstate \<Rightarrow> genstate" where
  "emit s st = st\<lparr>mem := mem st @ s\<rparr>"

text \<open>The invariant of the cursor: the terminated string lies inside an array of \<open>cap\<close> bytes.\<close>

definition room :: "nat \<Rightarrow> frame \<Rightarrow> genstate \<Rightarrow> bool" where
  "room cap fr st \<longleftrightarrow>
     buf fr + len fr = cap \<and> 0 < len fr \<and> buf fr \<le> length (mem st) \<and> length (mem st) < cap"


text \<open>
  What the extension loop appends and logs for the extensions of a context when every
  append fits (lemma \<open>exten_loop_fits\<close>).
\<close>

definition extens_text :: "pbx \<Rightarrow> genstate \<Rightarrow> string \<Rightarrow> ast_exten list \<Rightarrow> string" where
  "extens_text db st prefix es = concat (map (exten_text db st prefix) (filter wanted es))"

definition extens_diags :: "ast_exten list \<Rightarrow> diag list" where
  "extens_diags es = concat (map exten_diags (filter wanted es))"

text \<open>
  The alternatives of a root context: the stack holds the root only and there is no prefix,
  so the ignore pattern of the root is asked for the first character of the stripped name.
  \<open>join_bar\<close> puts \<^verbatim>\<open>|\<close> between the alternatives.
\<close>

fun join_bar :: "string list \<Rightarrow> string" where
  "join_bar [] = []"
| "join_bar [x] = x"
| "join_bar (x # y # ys) = x @ ''|'' @ join_bar (y # ys)"

definition root_alternative :: "pbx \<Rightarrow> string \<Rightarrow> ast_exten \<Rightarrow> string" where
  "root_alternative db ctx e =
     (let name = strip_sentinel (exten_name e)
      in pattern_text [] (ast_ignore_pattern db ctx (take 1 name)) name)"

definition root_alternatives :: "pbx \<Rightarrow> string \<Rightarrow> ast_context \<Rightarrow> string list" where
  "root_alternatives db ctx c = map (root_alternative db ctx) (filter wanted (ctx_extensions c))"

text \<open>
  Two states have the same include stack: the same counter, the same fault flag and the
  same entries below the counter.
\<close>

definition same_stack :: "genstate \<Rightarrow> genstate \<Rightarrow> bool" where
  "same_stack st st' \<longleftrightarrow>
     includecount st' = includecount st \<and> fault st' = fault st \<and>
     length (includes_stack st') = length (includes_stack st) \<and>
     take (nat (includecount st)) (includes_stack st') =
       take (nat (includecount st)) (includes_stack st)"

text \<open>
  The frame with \<open>d\<close> more bytes of room.
\<close>

definition widen :: "nat \<Rightarrow> frame \<Rightarrow> frame" where
  "widen d fr = fr\<lparr>len := len fr + d\<rparr>"

text \<open>
  The counters of the bracket bookkeeping after a part of a pattern.
\<close>

fun pattern_vars :: "string \<Rightarrow> string \<Rightarrow> patvars \<Rightarrow> patvars" where
  "pattern_vars ename [] pv = pv"
| "pattern_vars ename (c # cs) pv = pattern_vars ename cs (fst (char_track ename c pv))"

section \<open>Bracket classes of digits\<close>

text \<open>
  A bracket class of digits: its items are bare digits and ranges of two digits, written
  one after the other between \<^verbatim>\<open>[\<close> and \<^verbatim>\<open>]\<close>.
\<close>

datatype class_item = Digit char | DigitRange char char

fun render_item :: "class_item \<Rightarrow> string" where
  "render_item (Digit d) = [d]"
| "render_item (DigitRange a b) = [a, CHR ''-'', b]"

definition class_body :: "class_item list \<Rightarrow> string" where
  "class_body items = concat (map render_item items)"

definition render_class :: "class_item list \<Rightarrow> string" where
  "render_class items = ''['' @ class_body items @ '']''"

definition is_digit :: "char \<Rightarrow> bool" where
  "is_digit c \<longleftrightarrow> c \<in> set ''0123456789''"

fun item_ok :: "class_item \<Rightarrow> bool" where
  "item_ok (Digit d) \<longleftrightarrow> is_digit d"
| "item_ok (DigitRange a b) \<longleftrightarrow> is_digit a \<and> is_digit b"

fun is_range :: "class_item \<Rightarrow> bool" where
  "is_range (Digit d) \<longleftrightarrow> False"
| "is_range (DigitRange a b) \<longleftrightarrow> True"

section \<open>The wording of the specification\<close>

text \<open>
  The digit map of the extensions of one context as the specification words it: the
  entries of priority 1 whose name without the sentinel is none of the reserved names, each
  translated, joined with \<^verbatim>\<open>|\<close>.
\<close>

definition spec_wanted :: "ast_exten \<Rightarrow> bool" where
  "spec_wanted e \<longleftrightarrow> exten_priority e = 1 \<and> \<not> special_exten (strip_sentinel (exten_name e))"

definition spec_digit_map :: "ast_exten list \<Rightarrow> string" where
  "spec_digit_map es = join_bar (map (\<lambda>e. translate (strip_sentinel (exten_name e))) (filter spec_wanted es))"

text \<open>
  The alternative of an extension as the specification words it: the prefix, then the
  translated pattern, with the marker of the second dial tone right after the prefix when
  there is one, and after the first translated character otherwise.
\<close>

definition spec_alternative :: "string \<Rightarrow> bool \<Rightarrow> string \<Rightarrow> string" where
  "spec_alternative prefix ign name =
     (if \<not> ign then prefix @ translate name
      else if prefix \<noteq> [] then prefix @ '','' @ translate name
      else translate (take 1 name) @ '','' @ translate (drop 1 name))"

section \<open>Example dialplans\<close>

text \<open>
  The scenario of the specification: context \<^verbatim>\<open>A\<close> has the extension \<^verbatim>\<open>_1XXX\<close> at
  priority 1 and includes \<^verbatim>\<open>B\<close> with the prefix \<^verbatim>\<open>9\<close> (the third \<^verbatim>\<open>|\<close>-separated
  field of the include name); \<^verbatim>\<open>B\<close> has the extension \<^verbatim>\<open>_NXX\<close> at priority 1. No
  ignore pattern is set, and \<^verbatim>\<open>AST_PBX_MAX_STACK\<close> has the value of Asterisk's
  \<^verbatim>\<open>pbx.h\<close>, 128.
\<close>

definition scenario_A :: ast_context where
  "scenario_A =
     \<lparr>ctx_extensions = [\<lparr>exten_name = ''_1XXX'', exten_priority = 1\<rparr>],
      ctx_includes = [''B||9'']\<rparr>"

definition scenario_B :: ast_context where
  "scenario_B =
     \<lparr>ctx_extensions = [\<lparr>exten_name = ''_NXX'', exten_priority = 1\<rparr>],
      ctx_includes = []\<rparr>"

definition scenario_db :: pbx where
  "scenario_db =
     \<lparr>ast_context_find =
        (\<lambda>n. if n = ''A'' then Some scenario_A else if n = ''B'' then Some scenario_B else None),
      ast_ignore_pattern = (\<lambda>_ _. False),
      AST_PBX_MAX_STACK = 128\<rparr>"

text \<open>
  Context \<^verbatim>\<open>A\<close> has the extension \<^verbatim>\<open>1\<close> and includes \<^verbatim>\<open>B\<close>, which does not exist, and then
  \<^verbatim>\<open>C\<close>, which has the extension \<^verbatim>\<open>2\<close>.
\<close>

definition dangling_db :: pbx where
  "dangling_db =
     \<lparr>ast_context_find =
        (\<lambda>n. if n = ''A'' then
                 Some \<lparr>ctx_extensions = [\<lparr>exten_name = ''1'', exten_priority = 1\<rparr>],
                       ctx_includes = [''B'', ''C'']\<rparr>
              else if n = ''C'' then
                 Some \<lparr>ctx_extensions = [\<lparr>exten_name = ''2'', exten_priority = 1\<rparr>],
                       ctx_includes = []\<rparr>
              else None),
      ast_ignore_pattern = (\<lambda>_ _. False),
      AST_PBX_MAX_STACK = 128\<rparr>"

text \<open>
  A cycle of 128 contexts without extensions, named by two letters from \<^verbatim>\<open>a\<close> to \<^verbatim>\<open>p\<close>:
  the context of number \<open>k\<close> includes the context of number \<open>k + 1\<close>, and the last one
  includes the first.
\<close>

definition chain_name :: "nat \<Rightarrow> string" where
  "chain_name k = [char_of (97 + k div 16), char_of (97 + k mod 16)]"

definition chain_db :: pbx where
  "chain_db =
     \<lparr>ast_context_find =
        (\<lambda>n. case n of
               [x, y] \<Rightarrow>
                 (let k = (of_char x - 97) * 16 + (of_char y - 97) in
                  if n = chain_name k \<and> k < 128
                  then Some \<lparr>ctx_extensions = [],
                             ctx_includes = [chain_name (if k = 127 then 0 else k + 1)]\<rparr>
                  else None)
             | _ \<Rightarrow> None),
      ast_ignore_pattern = (\<lambda>_ _. False),
      AST_PBX_MAX_STACK = 128\<rparr>"

text \<open>
  Contexts \<^verbatim>\<open>A\<close> and \<^verbatim>\<open>B\<close> include each other. \<open>cycle_state\<close> and \<open>cycle_frame\<close> are the
  state and the cursor of the call for \<^verbatim>\<open>B\<close>, when its include loop starts: both names are
  on the stack and four bytes have been written.
\<close>

definition cycle_db :: pbx where
  "cycle_db =
     \<lparr>ast_context_find =
        (\<lambda>n. if n = ''A'' then
                 Some \<lparr>ctx_extensions = [\<lparr>exten_name = ''1'', exten_priority = 1\<rparr>],
                       ctx_includes = [''B'']\<rparr>
              else if n = ''B'' then
                 Some \<lparr>ctx_extensions = [\<lparr>exten_name = ''2'', exten_priority = 1\<rparr>],
                       ctx_includes = [''A'']\<rparr>
              else None),
      ast_ignore_pattern = (\<lambda>_ _. False),
      AST_PBX_MAX_STACK = 128\<rparr>"

definition cycle_state :: genstate where
  "cycle_state = push_context ''B'' (push_context ''A'' (initial_state cycle_db))"

definition cycle_frame :: frame where
  "cycle_frame = \<lparr>buf = 4, len = BUF_SIZE - 4, res = 0\<rparr>"

text \<open>
  Context \<^verbatim>\<open>P\<close> includes \<^verbatim>\<open>Q\<close> with the prefix \<^verbatim>\<open>12345\<close>. With a prefix of thirty digits
  already accumulated, the new prefix does not fit the 32 bytes of \<^verbatim>\<open>newprefix\<close>.
\<close>

definition trunc_db :: pbx where
  "trunc_db =
     \<lparr>ast_context_find =
        (\<lambda>n. if n = ''P'' then Some \<lparr>ctx_extensions = [], ctx_includes = [''Q||12345'']\<rparr>
              else if n = ''Q'' then
                 Some \<lparr>ctx_extensions = [\<lparr>exten_name = ''5'', exten_priority = 1\<rparr>],
                       ctx_includes = []\<rparr>
              else None),
      ast_ignore_pattern = (\<lambda>_ _. False),
      AST_PBX_MAX_STACK = 128\<rparr>"

definition trunc_prefix :: string where
  "trunc_prefix = replicate 30 (CHR ''9'')"

text \<open>
  Context \<^verbatim>\<open>A\<close> includes \<^verbatim>\<open>B\<close> by a name with one \<^verbatim>\<open>|\<close> only, \<^verbatim>\<open>B|x\<close>; \<^verbatim>\<open>B\<close> has the
  extension \<^verbatim>\<open>1\<close>.
\<close>

definition null_db :: pbx where
  "null_db =
     \<lparr>ast_context_find =
        (\<lambda>n. if n = ''A'' then Some \<lparr>ctx_extensions = [], ctx_includes = [''B|x'']\<rparr>
              else if n = ''B'' then
                 Some \<lparr>ctx_extensions = [\<lparr>exten_name = ''1'', exten_priority = 1\<rparr>],
                       ctx_includes = []\<rparr>
              else None),
      ast_ignore_pattern = (\<lambda>_ _. False),
      AST_PBX_MAX_STACK = 128\<rparr>"

text \<open>
  A context whose only extension is \<^verbatim>\<open>_s\<close> at priority 1.
\<close>

definition meta_db :: pbx where
  "meta_db =
     \<lparr>ast_context_find =
        (\<lambda>n. if n = ''A'' then
                 Some \<lparr>ctx_extensions = [\<lparr>exten_name = ''_s'', exten_priority = 1\<rparr>],
                       ctx_includes = []\<rparr>
              else None),
      ast_ignore_pattern = (\<lambda>_ _. False),
      AST_PBX_MAX_STACK = 128\<rparr>"

text \<open>
  A context whose only extension is a pattern of 410 \<^verbatim>\<open>N\<close>, which takes 2050 bytes once
  translated; and a cursor with three bytes left after 2045 bytes written.
\<close>

definition long_exten :: ast_exten where
  "long_exten = \<lparr>exten_name = CHR ''_'' # replicate 410 (CHR ''N''), exten_priority = 1\<rparr>"

definition long_db :: pbx where
  "long_db =
     \<lparr>ast_context_find =
        (\<lambda>n. if n = ''A'' then
                 Some \<lparr>ctx_extensions = [long_exten], ctx_includes = []\<rparr>
              else None),
      ast_ignore_pattern = (\<lambda>_ _. False),
      AST_PBX_MAX_STACK = 128\<rparr>"

definition tight_frame :: frame where
  "tight_frame = \<lparr>buf = 2045, len = 3, res = 0\<rparr>"

definition tight_state :: genstate where
  "tight_state = \<lparr>includecount = 0, includes_stack = [], mem = replicate 2045 (CHR ''1''),
     logs = [], fault = False\<rparr>"

text \<open>
  A context without includes whose ignore pattern answers yes for the digit \<^verbatim>\<open>9\<close>: the
  extensions \<^verbatim>\<open>s\<close> and \<^verbatim>\<open>100\<close> (at priority 2) are skipped.
\<close>

definition single_db :: pbx where
  "single_db =
     \<lparr>ast_context_find =
        (\<lambda>n. if n = ''A'' then
                 Some \<lparr>ctx_extensions =
                         [\<lparr>exten_name = ''_1NXX'', exten_priority = 1\<rparr>,
                          \<lparr>exten_name = ''s'', exten_priority = 1\<rparr>,
                          \<lparr>exten_name = ''100'', exten_priority = 2\<rparr>,
                          \<lparr>exten_name = ''_9!'', exten_priority = 1\<rparr>],
                       ctx_includes = []\<rparr>
              else None),
      ast_ignore_pattern = (\<lambda>n d. n = ''A'' \<and> d = ''9''),
      AST_PBX_MAX_STACK = 128\<rparr>"

text \<open>
  A dialplan with an ignore pattern: \<^verbatim>\<open>P\<close> includes \<^verbatim>\<open>Q\<close> with the prefix \<^verbatim>\<open>9\<close> and gives
  dial tone again after a \<^verbatim>\<open>9\<close>; \<^verbatim>\<open>Q\<close> has the extensions \<^verbatim>\<open>_\<close> (a pattern with nothing
  after the sentinel) and \<^verbatim>\<open>_1\<close>. \<open>comma_state\<close> is the state of the call for \<^verbatim>\<open>Q\<close>.
\<close>

definition comma_db :: pbx where
  "comma_db =
     \<lparr>ast_context_find =
        (\<lambda>n. if n = ''P'' then Some \<lparr>ctx_extensions = [], ctx_includes = [''Q||9'']\<rparr>
              else if n = ''Q'' then
                 Some \<lparr>ctx_extensions =
                         [\<lparr>exten_name = ''_'', exten_priority = 1\<rparr>,
                          \<lparr>exten_name = ''_1'', exten_priority = 1\<rparr>],
                       ctx_includes = []\<rparr>
              else None),
      ast_ignore_pattern = (\<lambda>n d. n = ''P'' \<and> d = ''9''),
      AST_PBX_MAX_STACK = 128\<rparr>"

definition comma_state :: genstate where
  "comma_state = \<lparr>includecount = 2, includes_stack = [Some ''P'', Some ''Q'', None],
     mem = [], logs = [], fault = False\<rparr>"

text \<open>
  A context whose only extension is the pattern \<^verbatim>\<open>_2[03-9]\<close> of the specification.
\<close>

definition class_db :: pbx where
  "class_db =
     \<lparr>ast_context_find =
        (\<lambda>n. if n = ''A'' then
                 Some \<lparr>ctx_extensions = [\<lparr>exten_name = ''_2[03-9]'', exten_priority = 1\<rparr>],
                       ctx_includes = []\<rparr>
              else None),
      ast_ignore_pattern = (\<lambda>_ _. False),
      AST_PBX_MAX_STACK = 128\<rparr>"

section \<open>Termination\<close>

text \<open>
  The appends and the two inner loops leave the include stack alone, so the counter after a
  recursive call is the counter before it; with the depth guard this bounds the recursion.
\<close>

lemma warn_simps [simp]:
  "includecount (warn d st) = includecount st"
  "includes_stack (warn d st) = includes_stack st"
  "fault (warn d st) = fault st"
  "mem (warn d st) = mem st"
  "logs (warn d st) = logs st @ [d]"
  by (simp_all add: warn_def)

lemma buf_append_stack:
  "buf_append s fr st = (ok, fr', st') \<Longrightarrow>
     includecount st' = includecount st \<and> includes_stack st' = includes_stack st \<and>
     fault st' = fault st \<and> logs st' = logs st"
  by (auto simp: buf_append_def Let_def split: prod.splits if_splits)

lemma pattern_char_stack:
  "pattern_char ename c pv fr st = (ok, pv', fr', st') \<Longrightarrow>
     includecount st' = includecount st \<and> includes_stack st' = includes_stack st \<and>
     fault st' = fault st"
  by (auto simp: pattern_char_def Let_def split: prod.splits if_splits
           dest!: buf_append_stack)

lemma comma_step_stack:
  "comma_step w ign fr st = (ok, ign', fr', st') \<Longrightarrow>
     includecount st' = includecount st \<and> includes_stack st' = includes_stack st \<and>
     fault st' = fault st \<and> logs st' = logs st"
  by (auto simp: comma_step_def Let_def split: prod.splits if_splits dest!: buf_append_stack)

lemma pattern_loop_stack:
  "pattern_loop prefix ename cs ign pv fr st = (fr', st') \<Longrightarrow>
     includecount st' = includecount st \<and> includes_stack st' = includes_stack st \<and>
     fault st' = fault st"
proof (induction cs arbitrary: ign pv fr st)
  case Nil
  then show ?case by simp
next
  case (Cons c cs)
  then show ?case
    by (auto simp: Let_def split: prod.splits if_splits
        dest!: comma_step_stack pattern_char_stack)
qed

lemma exten_loop_stack:
  "exten_loop db prefix es fr st = (fr', st') \<Longrightarrow>
     includecount st' = includecount st \<and> includes_stack st' = includes_stack st \<and>
     fault st' = fault st"
proof (induction es arbitrary: fr st)
  case Nil
  then show ?case by simp
next
  case (Cons e es)
  then show ?case
    by (auto simp: Let_def split: prod.splits if_splits
        dest!: buf_append_stack pattern_loop_stack)
qed

lemma push_count [simp]: "includecount (push_context c st) = includecount st + 1"
  by (simp add: push_context_def includes_store_def Let_def)

lemma pop_count [simp]: "includecount (pop_context st) = includecount st - 1"
  by (simp add: pop_context_def includes_store_def)

lemma walk_extensions_count [simp]:
  "includecount (snd (walk_extensions db prefix c b l st)) = includecount st"
  by (auto simp: walk_extensions_def Let_def split: prod.splits dest!: exten_loop_stack)

lemma absorb_snd [simp]: "snd (absorb fr child) = snd child"
  by (simp add: absorb_def Let_def)

lemma count_partial:
  "generate_digit_map_include_loop_dom (Inl (db, p0, ctx, b0, l0, st)) \<Longrightarrow>
     includecount (snd (generate_digit_map db p0 ctx b0 l0 st)) = includecount st"
  "generate_digit_map_include_loop_dom (Inr (db, prefix, ctx, is, fs)) \<Longrightarrow>
     includecount (snd (include_loop db prefix ctx is fs)) = includecount (snd fs)"
proof (induct rule: generate_digit_map_include_loop.pinduct)
  case (1 db prefix0 "context" start len0 st)
  then show ?case
    by (auto simp: generate_digit_map.psimps finish_def split: option.splits)
next
  case (2 db prefix "context" fs)
  then show ?case by (simp add: include_loop.psimps)
next
  case (3 db prefix "context" i "is" fr st)
  then show ?case
    by (auto simp: include_loop.psimps Let_def)
qed

termination generate_digit_map
  apply (relation "inv_image (less_than <*lex*> less_than <*lex*> less_than)
    (\<lambda>x. case x of
        Inl (db, p0, ctx, b0, l0, st) \<Rightarrow> (nat (AST_PBX_MAX_STACK db - includecount st), 1::nat, 0::nat)
      | Inr (db, prefix, ctx, is, fs) \<Rightarrow>
          (nat (AST_PBX_MAX_STACK db + 1 - includecount (snd fs)), 0, length is))")
        apply (intro wf_inv_image wf_lex_prod wf_less_than)
       apply (auto simp: count_partial)
  done

declare generate_digit_map.simps [simp del] include_loop.simps(2) [simp del]

lemma generate_digit_map_total:
  "generate_digit_map_include_loop_dom (Inl (db, prefix0, ctx, buf0, len0, st))"
  "generate_digit_map_include_loop_dom (Inr (db, prefix, ctx, is, fs))"
proof (induct db prefix0 ctx buf0 len0 st and db prefix ctx "is" fs
      rule: generate_digit_map_include_loop.induct)
  case (1 db prefix0 "context" buf0 len0 st)
  show ?case
    by (rule generate_digit_map_include_loop.domintros(1)) (rule 1)
next
  case (2 db prefix "context" fs)
  show ?case by (rule generate_digit_map_include_loop.domintros(2))
next
  case (3 db prefix "context" i "is" fr st)
  show ?case
    by (rule generate_digit_map_include_loop.domintros(3)) (simp_all add: 3)
qed

section \<open>The bounded append\<close>

lemma advance_simps [simp]:
  "buf (advance n fr) = buf fr + n"
  "len (advance n fr) = len fr - n"
  "res (advance n fr) = res fr"
  "advance 0 fr = fr"
  by (simp_all add: advance_def)

lemma advance_advance [simp]:
  "advance m (advance n fr) = advance (n + m) fr"
  by (simp add: advance_def)

lemma emit_simps [simp]:
  "mem (emit s st) = mem st @ s"
  "logs (emit s st) = logs st"
  "includecount (emit s st) = includecount st"
  "includes_stack (emit s st) = includes_stack st"
  "fault (emit s st) = fault st"
  "emit [] st = st"
  by (simp_all add: emit_def)

lemma emit_emit [simp]: "emit t (emit s st) = emit (s @ t) st"
  by (simp add: emit_def)

lemma emit_logs_update [simp]: "emit s (st\<lparr>logs := l\<rparr>) = (emit s st)\<lparr>logs := l\<rparr>"
  by (simp add: emit_def)

lemma buf_append_ok:
  "length s < len fr \<Longrightarrow> buf fr = length (mem st) \<Longrightarrow>
   buf_append s fr st = (True, advance (length s) fr, emit s st)"
  by (simp add: buf_append_def snprintf_def advance_def emit_def)

lemma buf_append_frame:
  "buf_append s fr st = (ok, fr', st') \<Longrightarrow>
   ok = (length s < len fr) \<and> fr' = (if ok then advance (length s) fr else fr\<lparr>res := - 1\<rparr>)"
  by (auto simp: buf_append_def snprintf_def advance_def split: if_splits)

lemma buf_append_room:
  "room cap fr st \<Longrightarrow> buf_append s fr st = (ok, fr', st') \<Longrightarrow> room cap fr' st'"
  by (auto simp: buf_append_def snprintf_def room_def split: if_splits)

section \<open>One pattern\<close>

lemma length_translate_char: "0 < length (translate_char c)"
  by (simp add: translate_char_def)

lemma pattern_text_Nil [simp]: "pattern_text prefix ign [] = []"
  by (simp add: pattern_text_def)

lemma pattern_text_False [simp]: "pattern_text prefix False name = translate name"
  by (cases name) (simp_all add: pattern_text_def translate_def)

lemma translate_simps [simp]:
  "translate [] = []"
  "translate (c # cs) = translate_char c @ translate cs"
  "translate (xs @ ys) = translate xs @ translate ys"
  by (simp_all add: translate_def)

lemma pattern_text_Cons:
  "pattern_text prefix ign (c # cs) =
     comma_text (prefix \<noteq> []) ign @ translate_char c @ comma_text (prefix = []) ign @ translate cs"
  by (simp add: pattern_text_def comma_text_def)

lemma comma_step_ok:
  "length (comma_text want ign) < len fr \<Longrightarrow> buf fr = length (mem st) \<Longrightarrow>
   comma_step want ign fr st =
     (True, ign \<and> \<not> want, advance (length (comma_text want ign)) fr, emit (comma_text want ign) st)"
  by (auto simp: comma_step_def comma_text_def buf_append_ok)

lemma comma_step_frame:
  "comma_step want ign fr st = (ok, ign', fr', st') \<Longrightarrow>
   ok = (length (comma_text want ign) < len fr \<or> \<not> (want \<and> ign)) \<and>
   fr' = (if ok then advance (length (comma_text want ign)) fr else fr\<lparr>res := - 1\<rparr>)"
  by (auto simp: comma_step_def comma_text_def split: if_splits prod.splits dest!: buf_append_frame)

lemma pattern_char_alt:
  "pattern_char ename c pv fr st =
     (case buf_append (translate_char c) fr (st\<lparr>logs := logs st @ snd (char_track ename c pv)\<rparr>) of
        (ok, fr', st') \<Rightarrow> (ok, fst (char_track ename c pv), fr', st'))"
  by (simp add: pattern_char_def char_track_def translate_char_def split: prod.splits)

lemma pattern_char_ok:
  "length (translate_char c) < len fr \<Longrightarrow> buf fr = length (mem st) \<Longrightarrow>
   pattern_char ename c pv fr st =
     (True, fst (char_track ename c pv), advance (length (translate_char c)) fr,
      (emit (translate_char c) st)\<lparr>logs := logs st @ snd (char_track ename c pv)\<rparr>)"
  by (simp add: pattern_char_alt buf_append_ok)

lemma pattern_char_frame:
  "pattern_char ename c pv fr st = (ok, pv', fr', st') \<Longrightarrow>
   ok = (length (translate_char c) < len fr) \<and>
   fr' = (if ok then advance (length (translate_char c)) fr else fr\<lparr>res := - 1\<rparr>)"
  unfolding pattern_char_alt
  by (auto split: prod.splits dest!: buf_append_frame)

lemma pattern_loop_fits:
  "length (pattern_text prefix ign name) < len fr \<Longrightarrow> buf fr = length (mem st) \<Longrightarrow>
   pattern_loop prefix ename name ign pv fr st =
     (advance (length (pattern_text prefix ign name)) fr,
      (emit (pattern_text prefix ign name) st)\<lparr>logs := logs st @ pattern_diags ename name pv\<rparr>)"
proof (induction name arbitrary: ign pv fr st)
  case Nil
  then show ?case by simp
next
  case (Cons c cs)
  let ?a = "comma_text (prefix \<noteq> []) ign"
  let ?b = "translate_char c"
  let ?d = "comma_text (prefix = []) ign"
  from Cons.prems(1) have l: "length ?a + length ?b + length ?d + length (translate cs) < len fr"
    by (simp add: pattern_text_Cons)
  have s1: "comma_step (prefix \<noteq> []) ign fr st =
      (True, ign \<and> prefix = [], advance (length ?a) fr, emit ?a st)"
    using l Cons.prems(2) by (simp add: comma_step_ok)
  have s2: "pattern_char ename c pv (advance (length ?a) fr) (emit ?a st) =
      (True, fst (char_track ename c pv), advance (length ?a + length ?b) fr,
       (emit (?a @ ?b) st)\<lparr>logs := logs st @ snd (char_track ename c pv)\<rparr>)"
    using l Cons.prems(2) by (simp add: pattern_char_ok)
  have d: "comma_text (prefix = []) (ign \<and> prefix = []) = ?d"
    by (simp add: comma_text_def)
  have s3: "comma_step (prefix = []) (ign \<and> prefix = []) (advance (length ?a + length ?b) fr)
        ((emit (?a @ ?b) st)\<lparr>logs := logs st @ snd (char_track ename c pv)\<rparr>) =
      (True, False, advance (length ?a + length ?b + length ?d) fr,
       (emit (?a @ ?b @ ?d) st)\<lparr>logs := logs st @ snd (char_track ename c pv)\<rparr>)"
    using l Cons.prems(2) by (simp add: comma_step_ok d add.assoc)
  have s4: "pattern_loop prefix ename cs False (fst (char_track ename c pv))
        (advance (length ?a + length ?b + length ?d) fr)
        ((emit (?a @ ?b @ ?d) st)\<lparr>logs := logs st @ snd (char_track ename c pv)\<rparr>) =
      (advance (length ?a + length ?b + length ?d + length (translate cs)) fr,
       (emit (?a @ ?b @ ?d @ translate cs) st)
         \<lparr>logs := logs st @ snd (char_track ename c pv) @
                  pattern_diags ename cs (fst (char_track ename c pv))\<rparr>)"
    using l Cons.prems(2) by (subst Cons.IH) (simp_all add: add.assoc)
  have "pattern_loop prefix ename (c # cs) ign pv fr st =
      (advance (length ?a + length ?b + length ?d + length (translate cs)) fr,
       (emit (?a @ ?b @ ?d @ translate cs) st)
         \<lparr>logs := logs st @ snd (char_track ename c pv) @
                  pattern_diags ename cs (fst (char_track ename c pv))\<rparr>)"
    by (simp add: s1 s2 s3 s4)
  then show ?case
    by (simp add: pattern_text_Cons add.assoc)
qed

lemma room_logs_update [simp]: "room cap fr (st\<lparr>logs := l\<rparr>) = room cap fr st"
  by (simp add: room_def)

lemma room_warn [simp]: "room cap fr (warn d st) = room cap fr st"
  by (simp add: room_def)

lemma buf_append_res:
  "buf_append s fr st = (ok, fr', st') \<Longrightarrow> res fr' = (if ok then res fr else - 1)"
  by (auto dest!: buf_append_frame)

lemma comma_step_inv:
  assumes "comma_step want ign fr st = (ok, ign', fr', st')"
  shows "room cap fr st \<Longrightarrow> room cap fr' st'"
    and "res fr' = (if ok then res fr else - 1)"
    and "ok \<Longrightarrow> ign' = (ign \<and> \<not> want)"
  using assms
  by (auto simp: comma_step_def split: if_splits prod.splits
           dest: buf_append_room buf_append_res)

lemma pattern_char_inv:
  assumes "pattern_char ename c pv fr st = (ok, pv', fr', st')"
  shows "room cap fr st \<Longrightarrow> room cap fr' st'"
    and "res fr' = (if ok then res fr else - 1)"
proof -
  let ?st = "st\<lparr>logs := logs st @ snd (char_track ename c pv)\<rparr>"
  from assms have b: "buf_append (translate_char c) fr ?st = (ok, fr', st')"
    unfolding pattern_char_alt by (auto split: prod.splits)
  show "room cap fr st \<Longrightarrow> room cap fr' st'"
    using buf_append_room [OF _ b, of cap] by simp
  show "res fr' = (if ok then res fr else - 1)"
    using buf_append_res [OF b] .
qed

lemma pattern_loop_inv:
  "pattern_loop prefix ename name ign pv fr st = (fr', st') \<Longrightarrow>
   (room cap fr st \<longrightarrow> room cap fr' st') \<and> (res fr' = res fr \<or> res fr' = - 1)"
proof (induction name arbitrary: ign pv fr st)
  case Nil
  then show ?case by simp
next
  case (Cons c cs)
  obtain ok1 ign1 fr1 st1 where c1: "comma_step (prefix \<noteq> []) ign fr st = (ok1, ign1, fr1, st1)"
    by (cases "comma_step (prefix \<noteq> []) ign fr st") auto
  obtain ok2 pv2 fr2 st2 where c2: "pattern_char ename c pv fr1 st1 = (ok2, pv2, fr2, st2)"
    by (cases "pattern_char ename c pv fr1 st1") auto
  obtain ok3 ign3 fr3 st3 where c3: "comma_step (prefix = []) ign1 fr2 st2 = (ok3, ign3, fr3, st3)"
    by (cases "comma_step (prefix = []) ign1 fr2 st2") auto
  note i1 = comma_step_inv(1,2) [OF c1] and i2 = pattern_char_inv [OF c2]
    and i3 = comma_step_inv(1,2) [OF c3]
  show ?case
  proof (cases "ok1 \<and> ok2 \<and> ok3")
    case True
    then have "pattern_loop prefix ename cs ign3 pv2 fr3 st3 = (fr', st')"
      using Cons.prems c1 c2 c3 by simp
    from Cons.IH [OF this] show ?thesis
      using True i1 i2 i3 by auto
  next
    case False
    then show ?thesis
      using Cons.prems c1 c2 c3 i1 i2 i3 by (auto split: if_splits)
  qed
qed

lemma pattern_loop_overflow:
  "0 < len fr \<Longrightarrow> len fr \<le> length (pattern_text prefix ign name) \<Longrightarrow>
   res (fst (pattern_loop prefix ename name ign pv fr st)) = - 1"
proof (induction name arbitrary: ign pv fr st)
  case Nil
  then show ?case by simp
next
  case (Cons c cs)
  let ?a = "comma_text (prefix \<noteq> []) ign"
  let ?b = "translate_char c"
  let ?d = "comma_text (prefix = []) ign"
  from Cons.prems(2) have l: "len fr \<le> length ?a + length ?b + length ?d + length (translate cs)"
    by (simp add: pattern_text_Cons)
  obtain ok1 ign1 fr1 st1 where c1: "comma_step (prefix \<noteq> []) ign fr st = (ok1, ign1, fr1, st1)"
    by (cases "comma_step (prefix \<noteq> []) ign fr st") auto
  obtain ok2 pv2 fr2 st2 where c2: "pattern_char ename c pv fr1 st1 = (ok2, pv2, fr2, st2)"
    by (cases "pattern_char ename c pv fr1 st1") auto
  obtain ok3 ign3 fr3 st3 where c3: "comma_step (prefix = []) ign1 fr2 st2 = (ok3, ign3, fr3, st3)"
    by (cases "comma_step (prefix = []) ign1 fr2 st2") auto
  note f1 = comma_step_frame [OF c1] and f2 = pattern_char_frame [OF c2]
    and f3 = comma_step_frame [OF c3]
  show ?case
  proof (cases "ok1 \<and> ok2 \<and> ok3")
    case True
    have g1: "ign1 = (ign \<and> prefix = [])" using comma_step_inv(3) [OF c1] True by simp
    have g3: "ign3 = False" using comma_step_inv(3) [OF c3] True g1 by simp
    have d: "comma_text (prefix = []) ign1 = ?d" using g1 by (simp add: comma_text_def)
    have fr1: "fr1 = advance (length ?a) fr" using f1 True by simp
    have la: "length ?a < len fr" using f1 True Cons.prems(1) by (auto simp: comma_text_def)
    have fr2: "fr2 = advance (length ?a + length ?b) fr" and lb: "length ?b < len fr - length ?a"
      using f2 True fr1 by simp_all
    have fr3: "fr3 = advance (length ?a + length ?b + length ?d) fr"
      using f3 True fr2 d by simp
    have ld: "length ?d < len fr - length ?a - length ?b"
      using f3 True fr2 d lb by (auto simp: comma_text_def)
    have "res (fst (pattern_loop prefix ename cs False pv2 fr3 st3)) = - 1"
      using l la lb ld by (intro Cons.IH) (simp_all add: fr3)
    then show ?thesis
      using True c1 c2 c3 g3 by simp
  next
    case False
    then show ?thesis
      using c1 c2 c3 comma_step_inv(2) [OF c1] pattern_char_inv(2) [OF c2] comma_step_inv(2) [OF c3]
      by (auto split: if_splits)
  qed
qed

section \<open>The extensions of one context\<close>

lemma ignorepat_check_cong:
  "includecount st' = includecount st \<Longrightarrow> includes_stack st' = includes_stack st \<Longrightarrow>
   ignorepat_check db st' = ignorepat_check db st"
  by (simp add: ignorepat_check_def fun_eq_iff)

lemma exten_text_cong:
  "includecount st' = includecount st \<Longrightarrow> includes_stack st' = includes_stack st \<Longrightarrow>
   exten_text db st' = exten_text db st"
  by (simp add: exten_text_def fun_eq_iff ignorepat_check_cong [of st' st])

lemma exten_text_simps [simp]:
  "exten_text db (emit s st) = exten_text db st"
  "exten_text db (st\<lparr>logs := l\<rparr>) = exten_text db st"
  "exten_text db (st\<lparr>mem := m\<rparr>) = exten_text db st"
  "exten_text db (warn d st) = exten_text db st"
  by (rule exten_text_cong; simp)+

lemma extens_text_simps [simp]:
  "extens_text db st prefix [] = []"
  "wanted e \<Longrightarrow> extens_text db st prefix (e # es) =
     exten_text db st prefix e @ extens_text db st prefix es"
  "\<not> wanted e \<Longrightarrow> extens_text db st prefix (e # es) = extens_text db st prefix es"
  by (simp_all add: extens_text_def)

lemma extens_diags_simps [simp]:
  "extens_diags [] = []"
  "wanted e \<Longrightarrow> extens_diags (e # es) = exten_diags e @ extens_diags es"
  "\<not> wanted e \<Longrightarrow> extens_diags (e # es) = extens_diags es"
  by (simp_all add: extens_diags_def)

lemma extens_text_cong:
  "includecount st' = includecount st \<Longrightarrow> includes_stack st' = includes_stack st \<Longrightarrow>
   extens_text db st' = extens_text db st"
  by (simp add: extens_text_def fun_eq_iff exten_text_cong [of st' st])

lemma extens_text_state [simp]:
  "extens_text db (emit s st) = extens_text db st"
  "extens_text db (st\<lparr>logs := l\<rparr>) = extens_text db st"
  "extens_text db (st\<lparr>mem := m\<rparr>) = extens_text db st"
  "extens_text db (warn d st) = extens_text db st"
  by (rule extens_text_cong; simp)+

lemma exten_loop_skip:
  "\<not> wanted e \<Longrightarrow> exten_loop db prefix (e # es) fr st = exten_loop db prefix es fr st"
  by (auto simp: wanted_def)

lemma exten_loop_wanted:
  "wanted e \<Longrightarrow> exten_loop db prefix (e # es) fr st =
     (case buf_append ''|'' fr st of
        (ok1, fr1, st1) \<Rightarrow>
          if \<not> ok1 then (fr1, st1)
          else case buf_append prefix fr1 st1 of
            (ok2, fr2, st2) \<Rightarrow>
              if \<not> ok2 then (fr2, st2)
              else case pattern_loop prefix (exten_name e) (strip_sentinel (exten_name e))
                       (ignorepat_check db st (firstchar_of prefix (strip_sentinel (exten_name e))))
                       \<lparr>in_pattern = 0, current_pattern_items = 0, contains_range = 0\<rparr> fr2 st2 of
                (fr3, st3) \<Rightarrow> exten_loop db prefix es fr3 st3)"
  by (simp add: wanted_def Let_def split: prod.splits)

declare exten_loop.simps(2) [simp del] pattern_loop.simps(2) [simp del]

lemma exten_loop_fits:
  "length (extens_text db st prefix es) < len fr \<Longrightarrow> buf fr = length (mem st) \<Longrightarrow>
   exten_loop db prefix es fr st =
     (advance (length (extens_text db st prefix es)) fr,
      (emit (extens_text db st prefix es) st)\<lparr>logs := logs st @ extens_diags es\<rparr>)"
proof (induction es arbitrary: fr st)
  case Nil
  then show ?case by simp
next
  case (Cons e es)
  show ?case
  proof (cases "wanted e")
    case False
    then show ?thesis using Cons by (simp add: exten_loop_skip)
  next
    case True
    let ?name = "strip_sentinel (exten_name e)"
    let ?ign = "ignorepat_check db st (firstchar_of prefix ?name)"
    let ?p = "pattern_text prefix ?ign ?name"
    let ?t = "extens_text db st prefix es"
    have te: "exten_text db st prefix e = ''|'' @ prefix @ ?p"
      by (simp add: exten_text_def Let_def)
    from Cons.prems(1) True have l: "1 + length prefix + length ?p + length ?t < len fr"
      by (simp add: te)
    have s1: "buf_append ''|'' fr st = (True, advance 1 fr, emit ''|'' st)"
      using l Cons.prems(2) buf_append_ok [of "''|''" fr st] by simp
    have s2: "buf_append prefix (advance 1 fr) (emit ''|'' st) =
        (True, advance (1 + length prefix) fr, emit (''|'' @ prefix) st)"
      using l Cons.prems(2) by (simp add: buf_append_ok)
    have s3: "pattern_loop prefix (exten_name e) ?name ?ign
          \<lparr>in_pattern = 0, current_pattern_items = 0, contains_range = 0\<rparr>
          (advance (1 + length prefix) fr) (emit (''|'' @ prefix) st) =
        (advance (1 + length prefix + length ?p) fr,
         (emit (''|'' @ prefix @ ?p) st)\<lparr>logs := logs st @ exten_diags e\<rparr>)"
      using l Cons.prems(2) by (simp add: pattern_loop_fits exten_diags_def)
    let ?st3 = "(emit (''|'' @ prefix @ ?p) st)\<lparr>logs := logs st @ exten_diags e\<rparr>"
    have t3: "extens_text db ?st3 prefix es = ?t"
      by simp
    have s4: "exten_loop db prefix es (advance (1 + length prefix + length ?p) fr) ?st3 =
        (advance (1 + length prefix + length ?p + length ?t) fr,
         (emit (''|'' @ prefix @ ?p @ ?t) st)\<lparr>logs := logs st @ exten_diags e @ extens_diags es\<rparr>)"
      using l Cons.prems(2) by (subst Cons.IH) (simp_all add: t3)
    have "exten_loop db prefix (e # es) fr st =
        (advance (1 + length prefix + length ?p + length ?t) fr,
         (emit (''|'' @ prefix @ ?p @ ?t) st)\<lparr>logs := logs st @ exten_diags e @ extens_diags es\<rparr>)"
      by (simp only: exten_loop_wanted [OF True] s1 s2 s3 s4 prod.case simp_thms if_False)
    then show ?thesis
      using True by (simp add: te add.assoc)
  qed
qed

lemma exten_loop_inv:
  "exten_loop db prefix es fr st = (fr', st') \<Longrightarrow>
   (room cap fr st \<longrightarrow> room cap fr' st') \<and> (res fr' = res fr \<or> res fr' = - 1)"
proof (induction es arbitrary: fr st)
  case Nil
  then show ?case by simp
next
  case (Cons e es)
  show ?case
  proof (cases "wanted e")
    case False
    then show ?thesis using Cons by (simp add: exten_loop_skip)
  next
    case True
    let ?name = "strip_sentinel (exten_name e)"
    let ?ign = "ignorepat_check db st (firstchar_of prefix ?name)"
    obtain ok1 fr1 st1 where c1: "buf_append ''|'' fr st = (ok1, fr1, st1)"
      by (cases "buf_append ''|'' fr st") auto
    obtain ok2 fr2 st2 where c2: "buf_append prefix fr1 st1 = (ok2, fr2, st2)"
      by (cases "buf_append prefix fr1 st1") auto
    obtain fr3 st3 where c3: "pattern_loop prefix (exten_name e) ?name ?ign
          \<lparr>in_pattern = 0, current_pattern_items = 0, contains_range = 0\<rparr> fr2 st2 = (fr3, st3)"
      by (rule prod.exhaust)
    note i1 = buf_append_room [OF _ c1, of cap] buf_append_res [OF c1]
      and i2 = buf_append_room [OF _ c2, of cap] buf_append_res [OF c2]
      and i3 = pattern_loop_inv [OF c3, of cap]
    show ?thesis
    proof (cases "ok1 \<and> ok2")
      case ok: True
      then have "exten_loop db prefix es fr3 st3 = (fr', st')"
        using Cons.prems True c1 c2 c3 by (simp add: exten_loop_wanted)
      from Cons.IH [OF this] show ?thesis
        using ok i1 i2 i3 by auto
    next
      case False
      then show ?thesis
        using Cons.prems True c1 c2 i1 i2 by (auto simp: exten_loop_wanted split: if_splits)
    qed
  qed
qed


lemma exten_loop_step_fits:
  assumes "wanted e" and "length (exten_text db st prefix e) < len fr"
    and "buf fr = length (mem st)"
  shows "exten_loop db prefix (e # es) fr st =
     exten_loop db prefix es (advance (length (exten_text db st prefix e)) fr)
       ((emit (exten_text db st prefix e) st)\<lparr>logs := logs st @ exten_diags e\<rparr>)"
proof -
  let ?name = "strip_sentinel (exten_name e)"
  let ?ign = "ignorepat_check db st (firstchar_of prefix ?name)"
  let ?p = "pattern_text prefix ?ign ?name"
  have te: "exten_text db st prefix e = ''|'' @ prefix @ ?p"
    by (simp add: exten_text_def Let_def)
  from assms(2) have l: "1 + length prefix + length ?p < len fr"
    by (simp add: te)
  have s1: "buf_append ''|'' fr st = (True, advance 1 fr, emit ''|'' st)"
    using l assms(3) buf_append_ok [of "''|''" fr st] by simp
  have s2: "buf_append prefix (advance 1 fr) (emit ''|'' st) =
      (True, advance (1 + length prefix) fr, emit (''|'' @ prefix) st)"
    using l assms(3) by (simp add: buf_append_ok)
  have s3: "pattern_loop prefix (exten_name e) ?name ?ign
        \<lparr>in_pattern = 0, current_pattern_items = 0, contains_range = 0\<rparr>
        (advance (1 + length prefix) fr) (emit (''|'' @ prefix) st) =
      (advance (1 + length prefix + length ?p) fr,
       (emit (''|'' @ prefix @ ?p) st)\<lparr>logs := logs st @ exten_diags e\<rparr>)"
    using l assms(3) by (simp add: pattern_loop_fits exten_diags_def)
  have "exten_loop db prefix (e # es) fr st =
      exten_loop db prefix es (advance (1 + length prefix + length ?p) fr)
        ((emit (''|'' @ prefix @ ?p) st)\<lparr>logs := logs st @ exten_diags e\<rparr>)"
    by (simp only: exten_loop_wanted [OF assms(1)] s1 s2 s3 prod.case simp_thms if_False)
  then show ?thesis
    by (simp add: te add.assoc)
qed

lemma exten_loop_overflow:
  "0 < len fr \<Longrightarrow> buf fr = length (mem st) \<Longrightarrow>
   len fr \<le> length (extens_text db st prefix es) \<Longrightarrow>
   res (fst (exten_loop db prefix es fr st)) = - 1"
proof (induction es arbitrary: fr st)
  case Nil
  then show ?case by simp
next
  case (Cons e es)
  show ?case
  proof (cases "wanted e")
    case False
    then show ?thesis using Cons by (simp add: exten_loop_skip)
  next
    case True
    let ?name = "strip_sentinel (exten_name e)"
    let ?ign = "ignorepat_check db st (firstchar_of prefix ?name)"
    let ?p = "pattern_text prefix ?ign ?name"
    let ?te = "exten_text db st prefix e"
    have te: "?te = ''|'' @ prefix @ ?p"
      by (simp add: exten_text_def Let_def)
    show ?thesis
    proof (cases "length ?te < len fr")
      case fits: True
      let ?fr = "advance (length ?te) fr"
      let ?st = "(emit ?te st)\<lparr>logs := logs st @ exten_diags e\<rparr>"
      have "res (fst (exten_loop db prefix es ?fr ?st)) = - 1"
        using Cons.prems True fits by (intro Cons.IH) simp_all
      then show ?thesis
        by (simp add: exten_loop_step_fits [OF True fits Cons.prems(2)])
    next
      case False
      obtain ok1 fr1 st1 where c1: "buf_append ''|'' fr st = (ok1, fr1, st1)"
        by (cases "buf_append ''|'' fr st") auto
      obtain ok2 fr2 st2 where c2: "buf_append prefix fr1 st1 = (ok2, fr2, st2)"
        by (cases "buf_append prefix fr1 st1") auto
      obtain fr3 st3 where c3: "pattern_loop prefix (exten_name e) ?name ?ign
            \<lparr>in_pattern = 0, current_pattern_items = 0, contains_range = 0\<rparr> fr2 st2 = (fr3, st3)"
        by (rule prod.exhaust)
      obtain fr4 st4 where c4: "exten_loop db prefix es fr3 st3 = (fr4, st4)"
        by (rule prod.exhaust)
      note f1 = buf_append_frame [OF c1] and f2 = buf_append_frame [OF c2]
      show ?thesis
      proof (cases "ok1 \<and> ok2")
        case ok: True
        have fr2: "fr2 = advance (1 + length prefix) fr"
          using f1 f2 ok by simp
        have "0 < len fr2" "len fr2 \<le> length ?p"
          using f1 f2 ok False by (auto simp: te fr2)
        then have "res (fst (pattern_loop prefix (exten_name e) ?name ?ign
            \<lparr>in_pattern = 0, current_pattern_items = 0, contains_range = 0\<rparr> fr2 st2)) = - 1"
          by (rule pattern_loop_overflow)
        then have "res fr3 = - 1" using c3 by simp
        then have "res fr4 = - 1" using exten_loop_inv [OF c4, of 0] by auto
        then show ?thesis
          using ok c1 c2 c3 c4 by (simp add: exten_loop_wanted [OF True])
      next
        case False
        then show ?thesis
          using c1 c2 f1 f2 by (auto simp: exten_loop_wanted [OF True] split: if_splits)
      qed
    qed
  qed
qed


section \<open>The include stack\<close>

lemma same_stack_refl [simp]: "same_stack st st"
  by (simp add: same_stack_def)

lemma same_stack_trans: "same_stack a b \<Longrightarrow> same_stack b c \<Longrightarrow> same_stack a c"
  by (simp add: same_stack_def)

lemma same_stack_warn [simp]: "same_stack st (warn d st)"
  by (simp add: same_stack_def)

lemma walk_extensions_stack:
  "walk_extensions db prefix c start len0 st = (fr, st') \<Longrightarrow>
   includecount st' = includecount st \<and> includes_stack st' = includes_stack st \<and>
   fault st' = fault st"
  by (auto simp: walk_extensions_def Let_def split: prod.splits if_splits dest!: exten_loop_stack)

lemma push_context_in_bounds:
  "0 \<le> includecount st \<Longrightarrow> includecount st < int (length (includes_stack st)) \<Longrightarrow>
   push_context context st =
     st\<lparr>includes_stack := (includes_stack st)[nat (includecount st) := Some context],
        includecount := includecount st + 1\<rparr>"
  by (simp add: push_context_def includes_store_def Let_def)

lemma pop_context_in_bounds:
  "0 < includecount st \<Longrightarrow> includecount st \<le> int (length (includes_stack st)) \<Longrightarrow>
   pop_context st =
     st\<lparr>includecount := includecount st - 1,
        includes_stack := (includes_stack st)[nat (includecount st - 1) := None]\<rparr>"
  by (simp add: pop_context_def includes_store_def)

lemma generate_digit_map_count [simp]:
  "includecount (snd (generate_digit_map db prefix0 ctx start len0 st)) = includecount st"
  by (rule count_partial(1) [OF generate_digit_map_total(1)])

lemma include_loop_count [simp]:
  "includecount (snd (include_loop db prefix ctx is fs)) = includecount (snd fs)"
  by (rule count_partial(2) [OF generate_digit_map_total(2)])

lemma push_pop_same_stack:
  assumes b: "0 \<le> includecount st" "includecount st < int (length (includes_stack st))"
    and s: "same_stack (push_context context st) st4"
  shows "same_stack st (pop_context st4)"
proof -
  let ?n = "nat (includecount st)"
  have p: "push_context context st =
      st\<lparr>includes_stack := (includes_stack st)[?n := Some context],
         includecount := includecount st + 1\<rparr>"
    using b by (rule push_context_in_bounds)
  from s have c4: "includecount st4 = includecount st + 1" and f4: "fault st4 = fault st"
    and l4: "length (includes_stack st4) = length (includes_stack st)"
    and t4: "take (Suc ?n) (includes_stack st4) = take (Suc ?n) ((includes_stack st)[?n := Some context])"
    using b by (simp_all add: same_stack_def p nat_add_distrib)
  have q: "pop_context st4 =
      st4\<lparr>includecount := includecount st, includes_stack := (includes_stack st4)[?n := None]\<rparr>"
    using b c4 l4 by (simp add: pop_context_in_bounds)
  have "take ?n (includes_stack st4) = take ?n (includes_stack st)"
  proof -
    have "take ?n (take (Suc ?n) (includes_stack st4)) =
          take ?n (take (Suc ?n) ((includes_stack st)[?n := Some context]))"
      by (simp only: t4)
    then show ?thesis by simp
  qed
  then show ?thesis
    by (simp add: same_stack_def q f4 l4)
qed

lemma stack_inv:
  "0 \<le> includecount st \<Longrightarrow> includecount st < AST_PBX_MAX_STACK db \<Longrightarrow>
   length (includes_stack st) = nat (AST_PBX_MAX_STACK db) \<Longrightarrow>
   same_stack st (snd (generate_digit_map db prefix0 ctx start len0 st))"
  "0 \<le> includecount (snd fs) \<Longrightarrow> includecount (snd fs) \<le> AST_PBX_MAX_STACK db \<Longrightarrow>
   length (includes_stack (snd fs)) = nat (AST_PBX_MAX_STACK db) \<Longrightarrow>
   same_stack (snd fs) (snd (include_loop db prefix ctx is fs))"
proof (induct db prefix0 ctx start len0 st and db prefix ctx "is" fs
      rule: generate_digit_map_include_loop.induct)
  case (1 db prefix0 "context" start len0 st)
  show ?case
  proof (cases "ast_context_find db context")
    case None
    then show ?thesis by (simp add: generate_digit_map.simps)
  next
    case (Some c)
    let ?fs = "walk_extensions db (prefix_or_empty prefix0) c start len0 (push_context context st)"
    let ?fs4 = "include_loop db (prefix_or_empty prefix0) context (ctx_includes c) ?fs"
    have b: "0 \<le> includecount st" "includecount st < int (length (includes_stack st))"
      using 1(2-4) by simp_all
    have w: "includecount (snd ?fs) = includecount st + 1"
      "includes_stack (snd ?fs) = includes_stack (push_context context st)"
      "fault (snd ?fs) = fault (push_context context st)"
      using walk_extensions_stack [of db "prefix_or_empty prefix0" c start len0
          "push_context context st" "fst ?fs" "snd ?fs"] by simp_all
    have "same_stack (snd ?fs) (snd ?fs4)"
      using 1(2-4) w b by (intro 1(1) [OF Some]) (simp_all add: push_context_in_bounds)
    then have "same_stack (push_context context st) (snd ?fs4)"
      using w by (simp add: same_stack_def)
    from push_pop_same_stack [OF b this] show ?thesis
      using Some by (simp add: generate_digit_map.simps finish_def)
  qed
next
  case (2 db prefix "context" fs)
  then show ?case by simp
next
  case (3 db prefix "context" i "is" fr st)
  let ?child = "generate_digit_map db (Some (make_newprefix prefix (snd (parse_include i))))
      (fst (parse_include i)) (buf fr) (len fr) st"
  from 3(6-8) have b: "0 \<le> includecount st" "includecount st \<le> AST_PBX_MAX_STACK db"
    "length (includes_stack st) = nat (AST_PBX_MAX_STACK db)" by simp_all
  consider (stop) "res fr < 0"
    | (deep) "\<not> res fr < 0" "AST_PBX_MAX_STACK db \<le> includecount st"
    | (empty) "\<not> res fr < 0" "\<not> AST_PBX_MAX_STACK db \<le> includecount st"
        "fst (parse_include i) = []"
    | (dupe) "\<not> res fr < 0" "\<not> AST_PBX_MAX_STACK db \<le> includecount st"
        "fst (parse_include i) \<noteq> []" "dupe_check st (fst (parse_include i))"
    | (rec) "\<not> res fr < 0" "\<not> AST_PBX_MAX_STACK db \<le> includecount st"
        "fst (parse_include i) \<noteq> []" "\<not> dupe_check st (fst (parse_include i))"
    by blast
  then show ?case
  proof cases
    case stop
    then show ?thesis by (simp add: include_loop.simps)
  next
    case deep
    have "same_stack (warn MaxDepthExceeded st)
        (snd (include_loop db prefix context is (fr, warn MaxDepthExceeded st)))"
      using 3(1) [OF deep] b by simp
    then show ?thesis
      using deep by (simp add: include_loop.simps same_stack_def)
  next
    case empty
    have "same_stack (warn EmptyInclude st)
        (snd (include_loop db prefix context is (fr, warn EmptyInclude st)))"
      using 3(2) [OF empty] b by simp
    then show ?thesis
      using empty by (simp add: include_loop.simps same_stack_def)
  next
    case dupe
    have "same_stack (warn (CircularInclude i context) st)
        (snd (include_loop db prefix context is (fr, warn (CircularInclude i context) st)))"
      using 3(3) [OF dupe] b by simp
    then show ?thesis
      using dupe by (simp add: include_loop.simps same_stack_def)
  next
    case rec
    have c: "same_stack st (snd ?child)"
      using 3(4) [OF rec] b rec(2) by simp
    show ?thesis
    proof (cases "fst ?child < 0")
      case True
      then show ?thesis using rec c by (simp add: include_loop.simps Let_def)
    next
      case False
      have "same_stack (snd (absorb fr ?child))
          (snd (include_loop db prefix context is (absorb fr ?child)))"
        using 3(5) [OF rec refl False] b c by (simp add: same_stack_def)
      then have "same_stack st (snd (include_loop db prefix context is (absorb fr ?child)))"
        using c by (auto intro: same_stack_trans)
      then show ?thesis using rec False by (simp add: include_loop.simps Let_def)
    qed
  qed
qed


lemma tolower_idem [simp]: "tolower (tolower c) = tolower c"
proof -
  have "of_char (char_of (of_char c + 32 :: nat)) = ((of_char c + 32) mod 256 :: nat)"
    by (rule of_char_of)
  then show ?thesis
    by (auto simp: tolower_def Let_def)
qed

lemma strcasecmp_eq_tolower [simp]: "strcasecmp_eq m (map tolower n) = strcasecmp_eq m n"
  by (simp add: strcasecmp_eq_def comp_def)

lemma dupe_check_iff:
  "dupe_check st n \<longleftrightarrow>
     (\<exists>m. Some m \<in> set (take (nat (includecount st)) (includes_stack st)) \<and>
          map tolower m = map tolower n)"
  by (auto simp: dupe_check_def list_ex_iff strcasecmp_eq_def split: option.splits)

lemma generate_digit_map_not_found:
  "ast_context_find db ctx = None \<Longrightarrow>
   generate_digit_map db prefix0 ctx start len0 st = (- 1, warn (NoSuchContext ctx) st)"
  by (simp add: generate_digit_map.simps)

lemma generate_digit_map_found:
  "ast_context_find db ctx = Some c \<Longrightarrow>
   generate_digit_map db prefix0 ctx start len0 st =
     finish start
       (include_loop db (prefix_or_empty prefix0) ctx (ctx_includes c)
          (walk_extensions db (prefix_or_empty prefix0) c start len0 (push_context ctx st)))"
  by (simp add: generate_digit_map.simps)

lemma popped_slot:
  assumes "0 \<le> includecount st" "includecount st < AST_PBX_MAX_STACK db"
    "length (includes_stack st) = nat (AST_PBX_MAX_STACK db)"
    "ast_context_find db ctx = Some c"
  shows "includes_stack (snd (generate_digit_map db prefix0 ctx start len0 st)) !
           nat (includecount st) = None"
proof -
  let ?fs = "include_loop db (prefix_or_empty prefix0) ctx (ctx_includes c)
          (walk_extensions db (prefix_or_empty prefix0) c start len0 (push_context ctx st))"
  let ?w = "walk_extensions db (prefix_or_empty prefix0) c start len0 (push_context ctx st)"
  have w: "includecount (snd ?w) = includecount st + 1"
      "includes_stack (snd ?w) = includes_stack (push_context ctx st)"
    using walk_extensions_stack [of db "prefix_or_empty prefix0" c start len0
          "push_context ctx st" "fst ?w" "snd ?w"] by simp_all
  have "same_stack (snd ?w) (snd ?fs)"
    using assms w by (intro stack_inv(2)) (simp_all add: push_context_in_bounds)
  then have "includecount (snd ?fs) = includecount st + 1"
    "length (includes_stack (snd ?fs)) = length (includes_stack st)"
    using w assms by (simp_all add: same_stack_def push_context_in_bounds)
  then show ?thesis
    using assms by (simp add: generate_digit_map_found finish_def pop_context_in_bounds)
qed

text \<open>
  Claim C10. A call entered with the counter below \<^verbatim>\<open>AST_PBX_MAX_STACK\<close> (which the root
  call and the depth guard ensure) and an array of that many entries never stores outside
  the array, so the counter never exceeds the maximum; it returns with the counter it was
  given and with the entries below the counter untouched; a call whose context does not
  resolve returns \<open>-1\<close> with stack and counter unchanged, a call that resolved its context
  has cleared the slot it had pushed; the driver ends with the counter at zero and no store
  out of range; and the duplicate check compares names up to the case of ASCII letters.
\<close>

theorem include_stack_invariant:
  assumes "0 \<le> includecount st" and "includecount st < AST_PBX_MAX_STACK db"
    and "length (includes_stack st) = nat (AST_PBX_MAX_STACK db)" and "\<not> fault st"
  shows "\<not> fault (snd (generate_digit_map db prefix0 ctx start len0 st)) \<and>
    includecount (snd (generate_digit_map db prefix0 ctx start len0 st)) = includecount st \<and>
    length (includes_stack (snd (generate_digit_map db prefix0 ctx start len0 st))) =
      length (includes_stack st) \<and>
    take (nat (includecount st)) (includes_stack (snd (generate_digit_map db prefix0 ctx start len0 st))) =
      take (nat (includecount st)) (includes_stack st) \<and>
    (ast_context_find db ctx = None \<longrightarrow>
       fst (generate_digit_map db prefix0 ctx start len0 st) = - 1 \<and>
       includes_stack (snd (generate_digit_map db prefix0 ctx start len0 st)) = includes_stack st) \<and>
    (ast_context_find db ctx \<noteq> None \<longrightarrow>
       includes_stack (snd (generate_digit_map db prefix0 ctx start len0 st)) !
         nat (includecount st) = None) \<and>
    \<not> fault (snd (snd (generate_digit_map_all db ctx))) \<and>
    includecount (snd (snd (generate_digit_map_all db ctx))) = 0 \<and>
    (\<forall>n. dupe_check st n \<longleftrightarrow>
       (\<exists>m. Some m \<in> set (take (nat (includecount st)) (includes_stack st)) \<and>
            map tolower m = map tolower n)) \<and>
    tolower (CHR ''A'') = CHR ''a'' \<and> tolower (CHR ''Z'') = CHR ''z'' \<and>
    tolower (CHR ''a'') = CHR ''a'' \<and> tolower (CHR ''1'') = CHR ''1''"
proof -
  let ?g = "generate_digit_map db prefix0 ctx start len0 st"
  have s: "same_stack st (snd ?g)"
    using assms(1-3) by (rule stack_inv(1))
  have pos: "0 < AST_PBX_MAX_STACK db" using assms(1,2) by simp
  have "same_stack (initial_state db)
      (snd (generate_digit_map db None ctx 0 BUF_SIZE (initial_state db)))"
    using pos by (intro stack_inv(1)) (simp_all add: initial_state_def)
  then have root: "\<not> fault (snd (snd (generate_digit_map_all db ctx)))"
    "includecount (snd (snd (generate_digit_map_all db ctx))) = 0"
    by (cases "generate_digit_map db None ctx 0 BUF_SIZE (initial_state db)";
        simp add: generate_digit_map_all_def same_stack_def initial_state_def)+
  have nf: "ast_context_find db ctx = None \<longrightarrow>
       fst ?g = - 1 \<and> includes_stack (snd ?g) = includes_stack st"
    by (simp add: generate_digit_map_not_found)
  have f: "ast_context_find db ctx \<noteq> None \<longrightarrow> includes_stack (snd ?g) ! nat (includecount st) = None"
    using popped_slot [OF assms(1-3)] by auto
  have t: "tolower (CHR ''A'') = CHR ''a''" "tolower (CHR ''Z'') = CHR ''z''"
    "tolower (CHR ''a'') = CHR ''a''" "tolower (CHR ''1'') = CHR ''1''"
    by code_simp+
  show ?thesis
    using s assms(4) root nf f t dupe_check_iff [of st]
    by (simp add: same_stack_def)
qed

theorem include_stack_invariant_witness:
  "0 \<le> includecount (initial_state scenario_db) \<and>
   includecount (initial_state scenario_db) < AST_PBX_MAX_STACK scenario_db \<and>
   length (includes_stack (initial_state scenario_db)) = nat (AST_PBX_MAX_STACK scenario_db) \<and>
   \<not> fault (initial_state scenario_db) \<and>
   \<not> fault (snd (generate_digit_map scenario_db None ''A'' 0 BUF_SIZE (initial_state scenario_db))) \<and>
   includecount (snd (generate_digit_map scenario_db None ''A'' 0 BUF_SIZE (initial_state scenario_db))) = 0 \<and>
   includes_stack (snd (generate_digit_map scenario_db None ''A'' 0 BUF_SIZE (initial_state scenario_db))) ! 0 = None"
  using include_stack_invariant [of "initial_state scenario_db" scenario_db None "''A''" 0 BUF_SIZE]
  by (simp add: initial_state_def scenario_db_def)


section \<open>Results are \<open>-1\<close> or a number of bytes\<close>

lemma pattern_loop_mono:
  "pattern_loop prefix ename name ign pv fr st = (fr', st') \<Longrightarrow> buf fr \<le> buf fr'"
proof (induction name arbitrary: ign pv fr st)
  case Nil
  then show ?case by simp
next
  case (Cons c cs)
  obtain ok1 ign1 fr1 st1 where c1: "comma_step (prefix \<noteq> []) ign fr st = (ok1, ign1, fr1, st1)"
    by (cases "comma_step (prefix \<noteq> []) ign fr st") auto
  obtain ok2 pv2 fr2 st2 where c2: "pattern_char ename c pv fr1 st1 = (ok2, pv2, fr2, st2)"
    by (cases "pattern_char ename c pv fr1 st1") auto
  obtain ok3 ign3 fr3 st3 where c3: "comma_step (prefix = []) ign1 fr2 st2 = (ok3, ign3, fr3, st3)"
    by (cases "comma_step (prefix = []) ign1 fr2 st2") auto
  have m: "buf fr \<le> buf fr1" "buf fr1 \<le> buf fr2" "buf fr2 \<le> buf fr3"
    using comma_step_frame [OF c1] pattern_char_frame [OF c2] comma_step_frame [OF c3]
    by (auto split: if_splits)
  show ?case
  proof (cases "ok1 \<and> ok2 \<and> ok3")
    case True
    then have "pattern_loop prefix ename cs ign3 pv2 fr3 st3 = (fr', st')"
      using Cons.prems c1 c2 c3 by (simp add: pattern_loop.simps)
    from Cons.IH [OF this] show ?thesis using m by simp
  next
    case False
    then show ?thesis
      using Cons.prems c1 c2 c3 m by (auto simp: pattern_loop.simps split: if_splits)
  qed
qed

lemma exten_loop_mono:
  "exten_loop db prefix es fr st = (fr', st') \<Longrightarrow> buf fr \<le> buf fr'"
proof (induction es arbitrary: fr st)
  case Nil
  then show ?case by simp
next
  case (Cons e es)
  show ?case
  proof (cases "wanted e")
    case False
    then show ?thesis using Cons by (simp add: exten_loop_skip)
  next
    case True
    let ?name = "strip_sentinel (exten_name e)"
    let ?ign = "ignorepat_check db st (firstchar_of prefix ?name)"
    obtain ok1 fr1 st1 where c1: "buf_append ''|'' fr st = (ok1, fr1, st1)"
      by (cases "buf_append ''|'' fr st") auto
    obtain ok2 fr2 st2 where c2: "buf_append prefix fr1 st1 = (ok2, fr2, st2)"
      by (cases "buf_append prefix fr1 st1") auto
    obtain fr3 st3 where c3: "pattern_loop prefix (exten_name e) ?name ?ign
          \<lparr>in_pattern = 0, current_pattern_items = 0, contains_range = 0\<rparr> fr2 st2 = (fr3, st3)"
      by (rule prod.exhaust)
    have m: "buf fr \<le> buf fr1" "buf fr1 \<le> buf fr2" "buf fr2 \<le> buf fr3"
      using buf_append_frame [OF c1] buf_append_frame [OF c2] pattern_loop_mono [OF c3]
      by (auto split: if_splits)
    show ?thesis
    proof (cases "ok1 \<and> ok2")
      case ok: True
      then have "exten_loop db prefix es fr3 st3 = (fr', st')"
        using Cons.prems True c1 c2 c3 by (simp add: exten_loop_wanted)
      from Cons.IH [OF this] show ?thesis
        using m by simp
    next
      case False
      then show ?thesis
        using Cons.prems True c1 c2 m by (auto simp: exten_loop_wanted split: if_splits)
    qed
  qed
qed

lemma walk_extensions_range:
  "walk_extensions db prefix c start len0 st = (fr, st') \<Longrightarrow>
   start \<le> buf fr \<and> (res fr = 0 \<or> res fr = - 1)"
  using exten_loop_mono [of db prefix "ctx_extensions c" "\<lparr>buf = start, len = len0, res = 0\<rparr>" st]
    exten_loop_inv [of db prefix "ctx_extensions c" "\<lparr>buf = start, len = len0, res = 0\<rparr>" st _ _ 0]
  by (auto simp: walk_extensions_def Let_def split: prod.splits)

lemma result_range:
  "- 1 \<le> fst (generate_digit_map db prefix0 ctx start len0 st)"
  "- 1 \<le> res (fst fs) \<Longrightarrow>
     - 1 \<le> res (fst (include_loop db prefix ctx is fs)) \<and>
     buf (fst fs) \<le> buf (fst (include_loop db prefix ctx is fs))"
proof (induct db prefix0 ctx start len0 st and db prefix ctx "is" fs
      rule: generate_digit_map_include_loop.induct)
  case (1 db prefix0 "context" start len0 st)
  show ?case
  proof (cases "ast_context_find db context")
    case None
    then show ?thesis by (simp add: generate_digit_map_not_found)
  next
    case (Some c)
    let ?w = "walk_extensions db (prefix_or_empty prefix0) c start len0 (push_context context st)"
    have w: "start \<le> buf (fst ?w)" "res (fst ?w) = 0 \<or> res (fst ?w) = - 1"
      using walk_extensions_range [of db "prefix_or_empty prefix0" c start len0
          "push_context context st" "fst ?w" "snd ?w"] by simp_all
    then have "- 1 \<le> res (fst ?w)" by auto
    from 1 [OF Some this] w show ?thesis
      by (simp add: generate_digit_map_found [OF Some] finish_def)
  qed
next
  case (2 db prefix "context" fs)
  then show ?case by simp
next
  case (3 db prefix "context" i "is" fr st)
  let ?child = "generate_digit_map db (Some (make_newprefix prefix (snd (parse_include i))))
      (fst (parse_include i)) (buf fr) (len fr) st"
  from 3(6) have r: "- 1 \<le> res fr" by simp
  consider (stop) "res fr < 0"
    | (deep) "\<not> res fr < 0" "AST_PBX_MAX_STACK db \<le> includecount st"
    | (empty) "\<not> res fr < 0" "\<not> AST_PBX_MAX_STACK db \<le> includecount st"
        "fst (parse_include i) = []"
    | (dupe) "\<not> res fr < 0" "\<not> AST_PBX_MAX_STACK db \<le> includecount st"
        "fst (parse_include i) \<noteq> []" "dupe_check st (fst (parse_include i))"
    | (rec) "\<not> res fr < 0" "\<not> AST_PBX_MAX_STACK db \<le> includecount st"
        "fst (parse_include i) \<noteq> []" "\<not> dupe_check st (fst (parse_include i))"
    by blast
  then show ?case
  proof cases
    case stop
    then show ?thesis using r by (simp add: include_loop.simps)
  next
    case deep
    then show ?thesis using 3(1) [OF deep] r by (simp add: include_loop.simps)
  next
    case empty
    then show ?thesis using 3(2) [OF empty] r by (simp add: include_loop.simps)
  next
    case dupe
    then show ?thesis using 3(3) [OF dupe] r by (simp add: include_loop.simps)
  next
    case rec
    have c: "- 1 \<le> fst ?child" using 3(4) [OF rec] .
    have a: "- 1 \<le> res (fst (absorb fr ?child))" "buf fr \<le> buf (fst (absorb fr ?child))"
      using c by (simp_all add: absorb_def Let_def)
    show ?thesis
    proof (cases "fst ?child < 0")
      case True
      then show ?thesis using rec a by (simp add: include_loop.simps Let_def)
    next
      case False
      from 3(5) [OF rec refl False] a show ?thesis
        using rec False by (simp add: include_loop.simps Let_def)
    qed
  qed
qed

section \<open>An include that does not resolve\<close>

lemma dupe_check_same_stack:
  "same_stack st st' \<Longrightarrow> dupe_check st' n = dupe_check st n"
  by (simp add: dupe_check_def same_stack_def)

lemma dupe_check_warn [simp]: "dupe_check (warn d st) n = dupe_check st n"
  by (simp add: dupe_check_def)

lemma dupe_check_push:
  assumes "0 \<le> includecount st" "includecount st < int (length (includes_stack st))"
  shows "dupe_check (push_context ctx st) n \<longleftrightarrow> dupe_check st n \<or> strcasecmp_eq ctx n"
proof -
  let ?k = "nat (includecount st)"
  have k: "?k < length (includes_stack st)" using assms by simp
  have "take (Suc ?k) ((includes_stack st)[?k := Some ctx]) =
      take ?k (includes_stack st) @ [Some ctx]"
    using k by (simp add: take_Suc_conv_app_nth)
  then show ?thesis
    using assms by (auto simp: dupe_check_def push_context_in_bounds nat_add_distrib)
qed

lemma include_loop_stopped:
  "res (fst fs) < 0 \<Longrightarrow> include_loop db prefix ctx is fs = fs"
  by (cases fs; cases "is") (simp_all add: include_loop.simps)

lemma absorb_res: "res (fst (absorb fr child)) = fst child"
  by (simp add: absorb_def Let_def)

lemma include_loop_append:
  "include_loop db prefix ctx (xs @ ys) fs =
     include_loop db prefix ctx ys (include_loop db prefix ctx xs fs)"
proof (induction xs arbitrary: fs)
  case Nil
  then show ?case by simp
next
  case (Cons x xs)
  obtain fr st where fs: "fs = (fr, st)" by (cases fs)
  let ?child = "generate_digit_map db (Some (make_newprefix prefix (snd (parse_include x))))
      (fst (parse_include x)) (buf fr) (len fr) st"
  show ?case
  proof (cases "res fr < 0")
    case True
    then show ?thesis
      by (simp add: fs include_loop.simps include_loop_stopped)
  next
    case False
    show ?thesis
    proof (cases "fst ?child < 0")
      case True
      then have "res (fst (absorb fr ?child)) < 0" by (simp add: absorb_res)
      then have "include_loop db prefix ctx ys (absorb fr ?child) = absorb fr ?child"
        by (rule include_loop_stopped)
      then show ?thesis
        using False True by (simp add: fs include_loop.simps Let_def Cons.IH)
    next
      case pos: False
      then show ?thesis
        using False by (simp add: fs include_loop.simps Let_def Cons.IH)
    qed
  qed
qed

lemma include_loop_dangling_step:
  assumes "\<not> res fr < 0" and "includecount st < AST_PBX_MAX_STACK db"
    and "fst (parse_include i) \<noteq> []" and "\<not> dupe_check st (fst (parse_include i))"
    and "ast_context_find db (fst (parse_include i)) = None"
  shows "include_loop db prefix ctx (i # rest) (fr, st) =
     (fr\<lparr>res := - 1\<rparr>, warn (NoSuchContext (fst (parse_include i))) st)"
  using assms
  by (simp add: include_loop.simps generate_digit_map_not_found absorb_def Let_def)

text \<open>
  Claim C1, as amended. Take an include of a context that names (after the parsing of the
  include name) a non-empty context name that is not on the include stack and does not
  resolve, the stack having room for the recursive call. The recursive call for that name
  logs \<open>NoSuchContext\<close> and returns \<open>-1\<close>, whatever its prefix, cursor and state. When the
  include loop reaches the include (the includes \<open>before\<close> it left \<^verbatim>\<open>res\<close> at zero or
  more), it stops there with \<^verbatim>\<open>res\<close> at \<open>-1\<close>, the cursor where it was and that one
  warning added to the state: the includes \<open>after\<close> it are not processed, and the result
  does not depend on them. When an include before it had already stopped the loop, the
  loop ends there. In both cases the call for the context returns \<open>-1\<close>, with the state
  of the loop after the context is popped; for the root context the driver then returns
  \<open>-1\<close> and prints nothing.
\<close>

theorem dangling_include_is_fatal:
  assumes "ast_context_find db ctx = Some c" and "ctx_includes c = before @ i # after"
    and "fst (parse_include i) \<noteq> []"
    and "ast_context_find db (fst (parse_include i)) = None"
    and "\<not> dupe_check st (fst (parse_include i))"
    and "\<not> strcasecmp_eq ctx (fst (parse_include i))"
    and "0 \<le> includecount st" and "includecount st + 1 < AST_PBX_MAX_STACK db"
    and "length (includes_stack st) = nat (AST_PBX_MAX_STACK db)"
  shows "generate_digit_map db p (fst (parse_include i)) b l s =
      (- 1, warn (NoSuchContext (fst (parse_include i))) s) \<and>
    include_loop db (prefix_or_empty prefix0) ctx (before @ i # after)
        (walk_extensions db (prefix_or_empty prefix0) c start len0 (push_context ctx st)) =
      (if res (fst (include_loop db (prefix_or_empty prefix0) ctx before
            (walk_extensions db (prefix_or_empty prefix0) c start len0 (push_context ctx st)))) < 0
       then include_loop db (prefix_or_empty prefix0) ctx before
            (walk_extensions db (prefix_or_empty prefix0) c start len0 (push_context ctx st))
       else ((fst (include_loop db (prefix_or_empty prefix0) ctx before
               (walk_extensions db (prefix_or_empty prefix0) c start len0 (push_context ctx st))))
               \<lparr>res := - 1\<rparr>,
             warn (NoSuchContext (fst (parse_include i)))
               (snd (include_loop db (prefix_or_empty prefix0) ctx before
                 (walk_extensions db (prefix_or_empty prefix0) c start len0
                   (push_context ctx st)))))) \<and>
    generate_digit_map db prefix0 ctx start len0 st =
      (- 1, pop_context (snd (include_loop db (prefix_or_empty prefix0) ctx (before @ i # after)
         (walk_extensions db (prefix_or_empty prefix0) c start len0 (push_context ctx st))))) \<and>
    (st = initial_state db \<and> prefix0 = None \<and> start = 0 \<and> len0 = BUF_SIZE \<longrightarrow>
       fst (generate_digit_map_all db ctx) = - 1 \<and>
       fst (snd (generate_digit_map_all db ctx)) = None)"
proof -
  let ?name = "fst (parse_include i)"
  let ?pre = "prefix_or_empty prefix0"
  let ?g = "generate_digit_map db prefix0 ctx start len0 st"
  let ?w = "walk_extensions db ?pre c start len0 (push_context ctx st)"
  let ?f = "include_loop db ?pre ctx before ?w"
  let ?l = "include_loop db ?pre ctx (before @ i # after) ?w"
  have b: "includecount st < int (length (includes_stack st))" using assms(7-9) by simp
  have w: "includecount (snd ?w) = includecount st + 1"
      "includes_stack (snd ?w) = includes_stack (push_context ctx st)"
    using walk_extensions_stack [of db ?pre c start len0
          "push_context ctx st" "fst ?w" "snd ?w"] by simp_all
  have "dupe_check (snd ?w) ?name = dupe_check (push_context ctx st) ?name"
    using w by (simp add: dupe_check_def)
  then have d: "\<not> dupe_check (snd ?w) ?name"
    using assms(5,6,7) b by (simp add: dupe_check_push)
  have lw: "length (includes_stack (snd ?w)) = nat (AST_PBX_MAX_STACK db)"
    using w b assms(7-9) by (simp add: push_context_in_bounds)
  have s: "same_stack (snd ?w) (snd ?f)"
    using w lw assms(7,8) by (intro stack_inv(2)) simp_all
  have df: "\<not> dupe_check (snd ?f) ?name"
    using d dupe_check_same_stack [OF s] by simp
  have cf: "includecount (snd ?f) < AST_PBX_MAX_STACK db"
    using s w assms(8) by (simp add: same_stack_def)
  have 1: "generate_digit_map db p ?name b l s = (- 1, warn (NoSuchContext ?name) s)"
    using assms(4) by (simp add: generate_digit_map_not_found)
  have 2: "?l = (if res (fst ?f) < 0 then ?f
      else ((fst ?f)\<lparr>res := - 1\<rparr>, warn (NoSuchContext ?name) (snd ?f)))"
  proof (cases "res (fst ?f) < 0")
    case True
    then show ?thesis
      by (simp add: include_loop_append [of db ?pre ctx before] include_loop_stopped)
  next
    case False
    have "include_loop db ?pre ctx (i # after) (fst ?f, snd ?f) =
        ((fst ?f)\<lparr>res := - 1\<rparr>, warn (NoSuchContext ?name) (snd ?f))"
      using False cf assms(3) df assms(4) by (rule include_loop_dangling_step)
    then show ?thesis
      using False by (simp add: include_loop_append [of db ?pre ctx before])
  qed
  have "res (fst ?l) < 0"
    unfolding 2 by simp
  then have "fst ?g < 0" and sg: "snd ?g = pop_context (snd ?l)"
    by (simp_all add: generate_digit_map_found [OF assms(1)] finish_def assms(2))
  then have g: "fst ?g = - 1"
    using result_range(1) [of db prefix0 ctx start len0 st] by simp
  have 3: "?g = (- 1, pop_context (snd ?l))"
    using g sg by (cases ?g) simp
  have 4: "st = initial_state db \<and> prefix0 = None \<and> start = 0 \<and> len0 = BUF_SIZE \<longrightarrow>
       fst (generate_digit_map_all db ctx) = - 1 \<and>
       fst (snd (generate_digit_map_all db ctx)) = None"
    using g
    by (cases "generate_digit_map db None ctx 0 BUF_SIZE (initial_state db)")
      (auto simp: generate_digit_map_all_def)
  from 1 2 3 4 show ?thesis by (intro conjI)
qed

theorem dangling_include_is_fatal_witness:
  "ast_context_find dangling_db ''A'' \<noteq> None \<and>
   ctx_includes (the (ast_context_find dangling_db ''A'')) = [] @ ''B'' # [''C''] \<and>
   ast_context_find dangling_db (fst (parse_include ''B'')) = None \<and>
   generate_digit_map dangling_db (Some []) ''B'' 2 2046 (initial_state dangling_db) =
     (- 1, warn (NoSuchContext ''B'') (initial_state dangling_db)) \<and>
   fst (generate_digit_map dangling_db None ''A'' 0 BUF_SIZE (initial_state dangling_db)) = - 1 \<and>
   fst (generate_digit_map_all dangling_db ''A'') = - 1 \<and>
   fst (snd (generate_digit_map_all dangling_db ''A'')) = None"
proof -
  have p: "parse_include ''B'' = (''B'', Some [])"
    by (simp add: parse_include_def cut_at_def)
  have c: "\<not> strcasecmp_eq ''A'' ''B''"
    by code_simp
  show ?thesis
    using dangling_include_is_fatal [of dangling_db "''A''" _ "[]" "''B''" "[''C'']"
        "initial_state dangling_db" "Some []" 2 2046 "initial_state dangling_db" None 0 BUF_SIZE] c
    by (simp add: dangling_db_def p initial_state_def dupe_check_def)
qed

text \<open>
  The claim as stated fails: context \<^verbatim>\<open>A\<close> with the extension \<^verbatim>\<open>1\<close> includes the missing
  context \<^verbatim>\<open>B\<close> and then the context \<^verbatim>\<open>C\<close> with the extension \<^verbatim>\<open>2\<close>. The driver returns
  \<open>-1\<close> and prints nothing; \<^verbatim>\<open>C\<close> is never visited.
\<close>

theorem dangling_include_counterexample:
  "fst (generate_digit_map_all dangling_db ''A'') = - 1 \<and>
   fst (snd (generate_digit_map_all dangling_db ''A'')) = None \<and>
   mem (snd (snd (generate_digit_map_all dangling_db ''A''))) = ''|1'' \<and>
   logs (snd (snd (generate_digit_map_all dangling_db ''A''))) = [NoSuchContext ''B'']"
  by code_simp


section \<open>Circular includes\<close>

lemma push_context_fields [simp]:
  "mem (push_context c st) = mem st" "logs (push_context c st) = logs st"
  by (simp_all add: push_context_def includes_store_def Let_def)

lemma pop_context_fields [simp]:
  "mem (pop_context st) = mem st" "logs (pop_context st) = logs st"
  by (simp_all add: pop_context_def includes_store_def)

lemma of_char_letter: "a < 16 \<Longrightarrow> of_char (char_of (97 + a :: nat)) = (97 + a :: nat)"
  by (simp add: of_char_of)

lemma letter_neq:
  assumes "a < 16" and "(of_char c :: nat) < 97 \<or> 112 < (of_char c :: nat)"
  shows "char_of (97 + a :: nat) \<noteq> c"
proof
  assume "char_of (97 + a) = c"
  then have "(of_char c :: nat) = 97 + a"
    using of_char_letter [OF assms(1)] by simp
  then show False using assms by simp
qed

lemma tolower_letter: "a < 16 \<Longrightarrow> tolower (char_of (97 + a :: nat)) = char_of (97 + a)"
  by (simp add: tolower_def Let_def of_char_letter)

lemma chain_name_lower: "k < 128 \<Longrightarrow> map tolower (chain_name k) = chain_name k"
  by (simp add: chain_name_def tolower_letter)

lemma chain_name_inj:
  assumes "j < 128" "k < 128" "chain_name j = chain_name k"
  shows "j = k"
proof -
  have "(of_char (char_of (97 + j div 16 :: nat)) :: nat) = of_char (char_of (97 + k div 16 :: nat))"
    "(of_char (char_of (97 + j mod 16 :: nat)) :: nat) = of_char (char_of (97 + k mod 16 :: nat))"
    using assms(3) by (simp_all add: chain_name_def)
  then have "j div 16 = k div 16" "j mod 16 = k mod 16"
    using assms(1,2) by (simp_all add: of_char_letter)
  then show ?thesis
    by (metis div_mult_mod_eq)
qed

lemma chain_find:
  assumes "k < 128"
  shows "ast_context_find chain_db (chain_name k) =
     Some \<lparr>ctx_extensions = [], ctx_includes = [chain_name (if k = 127 then 0 else k + 1)]\<rparr>"
proof -
  have "(of_char (char_of (97 + k div 16 :: nat)) - 97) * 16 +
        (of_char (char_of (97 + k mod 16 :: nat)) - 97) = k"
    using assms by (simp add: of_char_letter)
  then show ?thesis
    using assms by (simp add: chain_db_def chain_name_def Let_def)
qed

lemma chain_name_no_separator:
  assumes "k < 128"
  shows "CHR ''|'' \<notin> set (chain_name k)" "CHR '','' \<notin> set (chain_name k)"
proof -
  have d: "k div 16 < 16" "k mod 16 < 16" using assms by simp_all
  show "CHR ''|'' \<notin> set (chain_name k)"
    using letter_neq [OF d(1), of "CHR ''|''"] letter_neq [OF d(2), of "CHR ''|''"]
    by (auto simp: chain_name_def)
  show "CHR '','' \<notin> set (chain_name k)"
    using letter_neq [OF d(1), of "CHR '',''"] letter_neq [OF d(2), of "CHR '',''"]
    by (auto simp: chain_name_def)
qed

lemma chain_name_nonempty [simp]: "chain_name k \<noteq> []"
  by (simp add: chain_name_def)

lemma chain_parse: "k < 128 \<Longrightarrow> parse_include (chain_name k) = (chain_name k, Some [])"
  by (simp add: parse_include_def cut_at_def chain_name_no_separator)

lemma chain_dupe:
  assumes "k < 128" "n \<le> k" "includecount st = int n"
    "take n (includes_stack st) = map (\<lambda>j. Some (chain_name j)) [0..<n]"
  shows "\<not> dupe_check st (chain_name k)"
proof -
  have "chain_name j \<noteq> chain_name k" if "j < n" for j
    using chain_name_inj [of j k] that assms(1,2) by auto
  then show ?thesis
    using assms by (auto simp: dupe_check_def list_ex_iff strcasecmp_eq_def chain_name_lower)
qed

lemma walk_no_extensions:
  "ctx_extensions c = [] \<Longrightarrow>
   walk_extensions db prefix c start len0 st = (\<lparr>buf = start, len = len0, res = 0\<rparr>, st)"
  by (simp add: walk_extensions_def)

lemma chain_descend:
  assumes "k < 128" "includecount st = int k" "length (includes_stack st) = 128"
    "take k (includes_stack st) = map (\<lambda>j. Some (chain_name j)) [0..<k]"
  shows "fst (generate_digit_map chain_db p (chain_name k) start len0 st) = 0 \<and>
    logs (snd (generate_digit_map chain_db p (chain_name k) start len0 st)) =
      logs st @ [MaxDepthExceeded] \<and>
    mem (snd (generate_digit_map chain_db p (chain_name k) start len0 st)) = mem st"
  using assms
proof (induction "127 - k" arbitrary: k st p)
  case 0
  then have k: "k = 127" by simp
  let ?st1 = "push_context (chain_name k) st"
  have c1: "includecount ?st1 = 128" using 0 k by simp
  have M: "AST_PBX_MAX_STACK chain_db = 128" by (simp add: chain_db_def)
  show ?case
    using k c1
    by (simp add: generate_digit_map_found [OF chain_find] walk_no_extensions
        include_loop.simps finish_def M)
next
  case (Suc d)
  then have k: "k < 127" by simp
  let ?st1 = "push_context (chain_name k) st"
  let ?fr = "\<lparr>buf = start, len = len0, res = 0\<rparr>"
  let ?prefix = "prefix_or_empty p"
  let ?child = "generate_digit_map chain_db (Some (make_newprefix ?prefix (Some [])))
      (chain_name (Suc k)) start len0 ?st1"
  have M: "AST_PBX_MAX_STACK chain_db = 128" by (simp add: chain_db_def)
  have b: "0 \<le> includecount st" "includecount st < int (length (includes_stack st))"
    using Suc.prems by simp_all
  have st1: "?st1 = st\<lparr>includes_stack := (includes_stack st)[k := Some (chain_name k)],
      includecount := int k + 1\<rparr>"
    using push_context_in_bounds [OF b] Suc.prems(2) by simp
  have t1: "take (Suc k) (includes_stack ?st1) = map (\<lambda>j. Some (chain_name j)) [0..<Suc k]"
    using Suc.prems by (simp add: st1 take_Suc_conv_app_nth)
  have c1: "includecount ?st1 = int (Suc k)" by (simp add: st1)
  have l1: "length (includes_stack ?st1) = 128" using Suc.prems by (simp add: st1)
  have nd: "\<not> dupe_check ?st1 (chain_name (Suc k))"
    using k by (intro chain_dupe [where n = "Suc k"] c1 t1) simp_all
  have IH: "fst ?child = 0 \<and> logs (snd ?child) = logs ?st1 @ [MaxDepthExceeded] \<and>
      mem (snd ?child) = mem ?st1"
    using Suc.hyps(2) k by (intro Suc.hyps(1) c1 l1 t1) simp_all
  have loop: "include_loop chain_db ?prefix (chain_name k) [chain_name (Suc k)] (?fr, ?st1) =
      absorb ?fr ?child"
    using k nd IH c1
    by (simp add: include_loop.simps chain_parse M Let_def)
  show ?case
    using k IH
    by (simp add: generate_digit_map_found [OF chain_find] walk_no_extensions loop
        finish_def absorb_def Let_def)
qed

text \<open>
  Claim C2, as amended. Generation terminates on every routing configuration: the recursion
  of \<open>generate_digit_map\<close> and \<open>include_loop\<close> is well-founded at every input. An include
  whose parsed, non-empty target name is on the include stack (compared without regard to
  case) is skipped without a recursive call, so nothing is emitted for it: the loop goes on
  with the next include, the buffer and the cursor unchanged and one warning logged. The
  warning is the circular-include one when the stack is below \<^verbatim>\<open>AST_PBX_MAX_STACK\<close>, and the
  maximum-depth one when the stack is full, because the depth guard is tested first.
\<close>

theorem circular_include_is_skipped:
  "generate_digit_map_include_loop_dom (Inl (db, prefix0, ctx, start, len0, st)) \<and>
   (0 \<le> res fr \<and> fst (parse_include i) \<noteq> [] \<and> dupe_check st (fst (parse_include i)) \<longrightarrow>
      include_loop db prefix ctx (i # rest) (fr, st) =
        include_loop db prefix ctx rest
          (fr, warn (if AST_PBX_MAX_STACK db \<le> includecount st then MaxDepthExceeded
                     else CircularInclude i ctx) st))"
  by (simp add: generate_digit_map_total include_loop.simps)

theorem circular_include_is_skipped_witness:
  "0 \<le> res cycle_frame \<and> fst (parse_include ''A'') \<noteq> [] \<and> dupe_check cycle_state ''A'' \<and>
   include_loop cycle_db [] ''B'' [''A''] (cycle_frame, cycle_state) =
     (cycle_frame, warn (CircularInclude ''A'' ''B'') cycle_state) \<and>
   fst (snd (generate_digit_map_all cycle_db ''A'')) = Some (''1|2'' @ [CHR 0x0A]) \<and>
   logs (snd (snd (generate_digit_map_all cycle_db ''A''))) = [CircularInclude ''A'' ''B'']"
proof -
  have p: "parse_include ''A'' = (''A'', Some [])"
    by (simp add: parse_include_def cut_at_def)
  have d: "dupe_check cycle_state ''A''"
    by code_simp
  have c: "includecount cycle_state = 2" "AST_PBX_MAX_STACK cycle_db = 128"
    by (simp_all add: cycle_state_def cycle_db_def initial_state_def)
  have r: "fst (snd (generate_digit_map_all cycle_db ''A'')) = Some (''1|2'' @ [CHR 0x0A])"
    "logs (snd (snd (generate_digit_map_all cycle_db ''A''))) = [CircularInclude ''A'' ''B'']"
    by code_simp+
  show ?thesis
    using circular_include_is_skipped [where db = cycle_db and ctx = "''B''" and st = cycle_state
        and fr = cycle_frame and i = "''A''" and prefix = "[]" and rest = "[]"] d r
    by (simp add: p c cycle_frame_def)
qed

text \<open>
  The claim as stated fails on a cycle as long as the stack is deep: 128 contexts named
  \<^verbatim>\<open>aa\<close>, \<^verbatim>\<open>ab\<close>, ..., \<^verbatim>\<open>hp\<close>, each including the next and the last including the first.
  When the include of \<^verbatim>\<open>aa\<close> in \<^verbatim>\<open>hp\<close> is reached, \<^verbatim>\<open>aa\<close> is on the stack, but the stack
  is full: the only warning logged is the maximum-depth one, and no circular include is
  reported.
\<close>

theorem long_cycle_counterexample:
  "ctx_includes (the (ast_context_find chain_db ''hp'')) = [''aa''] \<and>
   fst (generate_digit_map_all chain_db ''aa'') = 0 \<and>
   logs (snd (snd (generate_digit_map_all chain_db ''aa''))) = [MaxDepthExceeded]"
proof -
  have n: "''aa'' = chain_name 0" "''hp'' = chain_name 127"
    by code_simp+
  have i: "includecount (initial_state chain_db) = int 0"
    "length (includes_stack (initial_state chain_db)) = 128"
    "take 0 (includes_stack (initial_state chain_db)) = map (\<lambda>j. Some (chain_name j)) [0..<0]"
    by (simp_all add: initial_state_def chain_db_def)
  have g: "fst (generate_digit_map chain_db None (chain_name 0) 0 BUF_SIZE (initial_state chain_db)) = 0"
    "logs (snd (generate_digit_map chain_db None (chain_name 0) 0 BUF_SIZE (initial_state chain_db))) =
       [MaxDepthExceeded]"
    using chain_descend [OF _ i, of None 0 BUF_SIZE] by (simp_all add: initial_state_def)
  have h: "ctx_includes (the (ast_context_find chain_db (chain_name 127))) = [chain_name 0]"
    by (simp add: chain_find)
  show ?thesis
    using g h unfolding n
    by (cases "generate_digit_map chain_db None (chain_name 0) 0 BUF_SIZE (initial_state chain_db)")
      (simp add: generate_digit_map_all_def)
qed


section \<open>The prefix of an include\<close>

lemma make_newprefix_take: "make_newprefix prefix tmp2 = take 31 (prefix @ render_str tmp2)"
  by (simp add: make_newprefix_def snprintf_def)

text \<open>
  When the include loop recurses into an include (name not empty, not on the stack, stack
  not full), the prefix of the recursive call is the first 31 bytes of what \<^verbatim>\<open>"%s%s"\<close>
  prints for the parent's prefix and \<^verbatim>\<open>tmp2\<close>: the text is cut when it has 32 bytes or
  more. The recursive call starts from the state and the cursor of the loop as they are:
  nothing is logged and \<^verbatim>\<open>res\<close> is not touched by the truncation.
\<close>

lemma include_loop_recurses:
  assumes "0 \<le> res fr" and "includecount st < AST_PBX_MAX_STACK db"
    and "parse_include i = (name, tmp2)" and "name \<noteq> []" and "\<not> dupe_check st name"
  shows "make_newprefix prefix tmp2 = take 31 (prefix @ render_str tmp2) \<and>
    (length (prefix @ render_str tmp2) < 32 \<longrightarrow>
       make_newprefix prefix tmp2 = prefix @ render_str tmp2) \<and>
    include_loop db prefix ctx (i # rest) (fr, st) =
      (if fst (generate_digit_map db (Some (take 31 (prefix @ render_str tmp2))) name
                 (buf fr) (len fr) st) < 0
       then absorb fr
              (generate_digit_map db (Some (take 31 (prefix @ render_str tmp2))) name
                 (buf fr) (len fr) st)
       else include_loop db prefix ctx rest
              (absorb fr
                 (generate_digit_map db (Some (take 31 (prefix @ render_str tmp2))) name
                    (buf fr) (len fr) st)))"
  using assms
  by (simp add: include_loop.simps make_newprefix_take Let_def)

lemma parse_include_one_bar:
  assumes "CHR ''|'' \<notin> set n" and "CHR ''|'' \<notin> set a"
  shows "snd (parse_include (n @ ''|'' @ a)) = None"
proof -
  have t: "takeWhile (\<lambda>x. x \<noteq> CHR ''|'') (n @ ''|'' @ a) = n"
    using assms(1) by (induction n) auto
  have d: "dropWhile (\<lambda>x. x \<noteq> CHR ''|'') (n @ ''|'' @ a) = ''|'' @ a"
    using assms(1) by (induction n) auto
  have "cut_at (CHR ''|'') (n @ ''|'' @ a) = (n, Some a)"
    unfolding cut_at_def t d by simp
  moreover have "cut_at (CHR ''|'') a = (a, None)"
    using assms(2) by (simp add: cut_at_def)
  ultimately show ?thesis
    by (simp add: parse_include_def Let_def split: prod.splits)
qed

text \<open>
  Claim C9. The claim is right for an include whose name has no \<^verbatim>\<open>|\<close> (no sub-prefix:
  \<^verbatim>\<open>tmp2\<close> keeps its initial value \<^verbatim>\<open>""\<close>) and for one with two or more (the sub-prefix
  is what follows the second \<^verbatim>\<open>|\<close>), by lemma \<open>include_loop_recurses\<close>. For a name with
  exactly one \<^verbatim>\<open>|\<close> the second \<^verbatim>\<open>strchr\<close> returns \<^verbatim>\<open>NULL\<close>, \<^verbatim>\<open>tmp2\<close> is \<^verbatim>\<open>NULL\<close> and the
  source hands it to \<^verbatim>\<open>%s\<close>: the prefix passed to the included context is not the
  parent's prefix followed by a sub-prefix. In \<open>null_db\<close>, with the text the GNU C library
  prints for a \<^verbatim>\<open>NULL\<close> string, the extension \<^verbatim>\<open>1\<close> of \<^verbatim>\<open>B\<close> is printed as \<^verbatim>\<open>(null)1\<close>, where
  the claim has \<^verbatim>\<open>1\<close>.
\<close>

theorem null_sub_prefix:
  "parse_include ''B|x'' = (''B'', None) \<and>
   make_newprefix [] (snd (parse_include ''B|x'')) = ''(null)'' \<and>
   fst (generate_digit_map_all null_db ''A'') = 0 \<and>
   fst (snd (generate_digit_map_all null_db ''A'')) = Some (''(null)1'' @ [CHR 0x0A])"
  by code_simp

lemma prefix_truncation_example:
  "parse_include ''Q||12345'' = (''Q'', Some ''12345'') \<and>
   length (trunc_prefix @ ''12345'') = 35 \<and>
   make_newprefix trunc_prefix (Some ''12345'') = ''9999999999'' @ ''9999999999'' @ ''9999999999'' @ ''1'' \<and>
   generate_digit_map trunc_db (Some trunc_prefix) ''P'' 0 BUF_SIZE (initial_state trunc_db) =
     (33, (initial_state trunc_db)
            \<lparr>mem := ''|'' @ ''9999999999'' @ ''9999999999'' @ ''9999999999'' @ ''1'' @ ''5''\<rparr>)"
proof -
  have p: "parse_include ''Q||12345'' = (''Q'', Some ''12345'')"
    by code_simp
  have t: "take 31 (trunc_prefix @ ''12345'') =
      ''9999999999'' @ ''9999999999'' @ ''9999999999'' @ ''1''"
    "length (trunc_prefix @ ''12345'') = 35"
    by code_simp+
  have g: "generate_digit_map trunc_db (Some trunc_prefix) ''P'' 0 BUF_SIZE (initial_state trunc_db) =
     (33, (initial_state trunc_db)
            \<lparr>mem := ''|'' @ ''9999999999'' @ ''9999999999'' @ ''9999999999'' @ ''1'' @ ''5''\<rparr>)"
    by code_simp
  show ?thesis
    using p t g by (simp add: make_newprefix_take render_str_def)
qed


section \<open>The cursor stays inside the buffer\<close>

lemma room_res_update [simp]: "room cap (fr\<lparr>res := r\<rparr>) st = room cap fr st"
  by (simp add: room_def)

lemma room_pop [simp]: "room cap fr (pop_context st) = room cap fr st"
  by (simp add: room_def)

lemma room_push [simp]: "room cap fr (push_context c st) = room cap fr st"
  by (simp add: room_def)

lemma walk_extensions_room:
  assumes "walk_extensions db prefix c start len0 st = (fr, st')"
    and "room cap \<lparr>buf = start, len = len0, res = 0\<rparr> st"
  shows "room cap fr st'"
proof -
  obtain fr1 st1 where e: "exten_loop db prefix (ctx_extensions c)
      \<lparr>buf = start, len = len0, res = 0\<rparr> st = (fr1, st1)"
    by (rule prod.exhaust)
  have "room cap fr1 st1" using exten_loop_inv [OF e, of cap] assms(2) by simp
  then show ?thesis
    using assms(1) e by (auto simp: walk_extensions_def split: if_splits)
qed

lemma room_inv:
  "room cap \<lparr>buf = start, len = len0, res = 0\<rparr> st \<Longrightarrow>
   length (mem (snd (generate_digit_map db prefix0 ctx start len0 st))) < cap \<and>
   start \<le> length (mem (snd (generate_digit_map db prefix0 ctx start len0 st))) \<and>
   (0 \<le> fst (generate_digit_map db prefix0 ctx start len0 st) \<longrightarrow>
      start + nat (fst (generate_digit_map db prefix0 ctx start len0 st))
        \<le> length (mem (snd (generate_digit_map db prefix0 ctx start len0 st))) \<and>
      nat (fst (generate_digit_map db prefix0 ctx start len0 st)) < len0)"
  "room cap (fst fs) (snd fs) \<Longrightarrow>
   room cap (fst (include_loop db prefix ctx is fs)) (snd (include_loop db prefix ctx is fs))"
proof (induct db prefix0 ctx start len0 st and db prefix ctx "is" fs
      rule: generate_digit_map_include_loop.induct)
  case (1 db prefix0 "context" start len0 st)
  note r0 = 1(2)
  show ?case
  proof (cases "ast_context_find db context")
    case None
    then show ?thesis using r0 by (simp add: generate_digit_map_not_found room_def)
  next
    case (Some c)
    let ?w = "walk_extensions db (prefix_or_empty prefix0) c start len0 (push_context context st)"
    let ?l = "include_loop db (prefix_or_empty prefix0) context (ctx_includes c) ?w"
    have rw: "room cap (fst ?w) (snd ?w)"
      using walk_extensions_room [of db "prefix_or_empty prefix0" c start len0
          "push_context context st" "fst ?w" "snd ?w" cap] r0 by simp
    have w: "start \<le> buf (fst ?w)" "- 1 \<le> res (fst ?w)"
      using walk_extensions_range [of db "prefix_or_empty prefix0" c start len0
          "push_context context st" "fst ?w" "snd ?w"] by auto
    have m: "buf (fst ?w) \<le> buf (fst ?l)"
      using result_range(2) [OF w(2)] by simp
    have rl: "room cap (fst ?l) (snd ?l)"
      using 1(1) [OF Some rw] .
    have c: "start + len0 = cap" using r0 by (simp add: room_def)
    show ?thesis
      using rl w(1) m c
      by (auto simp: generate_digit_map_found [OF Some] finish_def room_def)
  qed
next
  case (2 db prefix "context" fs)
  then show ?case by simp
next
  case (3 db prefix "context" i "is" fr st)
  let ?child = "generate_digit_map db (Some (make_newprefix prefix (snd (parse_include i))))
      (fst (parse_include i)) (buf fr) (len fr) st"
  from 3(6) have r: "room cap fr st" by simp
  consider (stop) "res fr < 0"
    | (deep) "\<not> res fr < 0" "AST_PBX_MAX_STACK db \<le> includecount st"
    | (empty) "\<not> res fr < 0" "\<not> AST_PBX_MAX_STACK db \<le> includecount st"
        "fst (parse_include i) = []"
    | (dupe) "\<not> res fr < 0" "\<not> AST_PBX_MAX_STACK db \<le> includecount st"
        "fst (parse_include i) \<noteq> []" "dupe_check st (fst (parse_include i))"
    | (rec) "\<not> res fr < 0" "\<not> AST_PBX_MAX_STACK db \<le> includecount st"
        "fst (parse_include i) \<noteq> []" "\<not> dupe_check st (fst (parse_include i))"
    by blast
  then show ?case
  proof cases
    case stop
    then show ?thesis using r by (simp add: include_loop.simps)
  next
    case deep
    then show ?thesis using 3(1) [OF deep] r by (simp add: include_loop.simps)
  next
    case empty
    then show ?thesis using 3(2) [OF empty] r by (simp add: include_loop.simps)
  next
    case dupe
    then show ?thesis using 3(3) [OF dupe] r by (simp add: include_loop.simps)
  next
    case rec
    have "room cap \<lparr>buf = buf fr, len = len fr, res = 0\<rparr> st"
      using r by (simp add: room_def)
    from 3(4) [OF rec this]
    have c: "length (mem (snd ?child)) < cap" "buf fr \<le> length (mem (snd ?child))"
      "0 \<le> fst ?child \<Longrightarrow> buf fr + nat (fst ?child) \<le> length (mem (snd ?child))"
      "0 \<le> fst ?child \<Longrightarrow> nat (fst ?child) < len fr"
      by simp_all
    have a: "room cap (fst (absorb fr ?child)) (snd (absorb fr ?child))"
      using c r by (auto simp: absorb_def Let_def room_def)
    show ?thesis
    proof (cases "fst ?child < 0")
      case True
      then show ?thesis using rec a by (simp add: include_loop.simps Let_def)
    next
      case False
      from 3(5) [OF rec refl False a] show ?thesis
        using rec False by (simp add: include_loop.simps Let_def)
    qed
  qed
qed


section \<open>A successful run does not depend on the room left\<close>

lemma widen_simps [simp]:
  "buf (widen d fr) = buf fr" "len (widen d fr) = len fr + d" "res (widen d fr) = res fr"
  by (simp_all add: widen_def)

lemma walk_extensions_success:
  assumes r: "room cap \<lparr>buf = start, len = len0, res = 0\<rparr> st" and e: "start = length (mem st)"
    and ok: "0 \<le> res (fst (walk_extensions db prefix c start len0 st))"
  shows "walk_extensions db prefix c start (len0 + d) st =
      (widen d (fst (walk_extensions db prefix c start len0 st)),
       snd (walk_extensions db prefix c start len0 st)) \<and>
    buf (fst (walk_extensions db prefix c start len0 st)) =
      length (mem (snd (walk_extensions db prefix c start len0 st)))"
proof -
  let ?t = "extens_text db st prefix (ctx_extensions c)"
  have l0: "0 < len0" using r by (simp add: room_def)
  show ?thesis
  proof (cases "length ?t < len0")
    case True
    have 1: "exten_loop db prefix (ctx_extensions c) \<lparr>buf = start, len = len0, res = 0\<rparr> st =
        (advance (length ?t) \<lparr>buf = start, len = len0, res = 0\<rparr>,
         (emit ?t st)\<lparr>logs := logs st @ extens_diags (ctx_extensions c)\<rparr>)"
      using True e by (intro exten_loop_fits) simp_all
    have 2: "exten_loop db prefix (ctx_extensions c) \<lparr>buf = start, len = len0 + d, res = 0\<rparr> st =
        (advance (length ?t) \<lparr>buf = start, len = len0 + d, res = 0\<rparr>,
         (emit ?t st)\<lparr>logs := logs st @ extens_diags (ctx_extensions c)\<rparr>)"
      using True e by (intro exten_loop_fits) simp_all
    show ?thesis
      using True by (simp add: walk_extensions_def 1 2 advance_def widen_def e [symmetric])
  next
    case False
    then have "res (fst (exten_loop db prefix (ctx_extensions c)
        \<lparr>buf = start, len = len0, res = 0\<rparr> st)) = - 1"
      using l0 e by (intro exten_loop_overflow) simp_all
    then have "res (fst (walk_extensions db prefix c start len0 st)) = - 1"
      by (cases "exten_loop db prefix (ctx_extensions c) \<lparr>buf = start, len = len0, res = 0\<rparr> st")
        (simp add: walk_extensions_def)
    then show ?thesis using ok by simp
  qed
qed

lemma absorb_widen:
  "nat (fst child) \<le> len fr \<Longrightarrow>
   absorb (widen d fr) child = (widen d (fst (absorb fr child)), snd child)"
  by (simp add: absorb_def widen_def Let_def)

lemma widen_inv:
  "room cap \<lparr>buf = start, len = len0, res = 0\<rparr> st \<Longrightarrow> start = length (mem st) \<Longrightarrow>
   0 \<le> fst (generate_digit_map db prefix0 ctx start len0 st) \<Longrightarrow>
   generate_digit_map db prefix0 ctx start (len0 + d) st =
     generate_digit_map db prefix0 ctx start len0 st \<and>
   length (mem (snd (generate_digit_map db prefix0 ctx start len0 st))) =
     start + nat (fst (generate_digit_map db prefix0 ctx start len0 st))"
  "room cap (fst fs) (snd fs) \<Longrightarrow> buf (fst fs) = length (mem (snd fs)) \<Longrightarrow>
   0 \<le> res (fst (include_loop db prefix ctx is fs)) \<Longrightarrow>
   include_loop db prefix ctx is (widen d (fst fs), snd fs) =
     (widen d (fst (include_loop db prefix ctx is fs)), snd (include_loop db prefix ctx is fs)) \<and>
   buf (fst (include_loop db prefix ctx is fs)) = length (mem (snd (include_loop db prefix ctx is fs)))"
proof (induct db prefix0 ctx start len0 st and db prefix ctx "is" fs
      rule: generate_digit_map_include_loop.induct)
  case (1 db prefix0 "context" start len0 st)
  note r0 = 1(2) and e0 = 1(3) and ok = 1(4)
  show ?case
  proof (cases "ast_context_find db context")
    case None
    then show ?thesis using ok by (simp add: generate_digit_map_not_found)
  next
    case (Some c)
    let ?p = "prefix_or_empty prefix0"
    let ?st1 = "push_context context st"
    let ?w = "walk_extensions db ?p c start len0 ?st1"
    let ?l = "include_loop db ?p context (ctx_includes c) ?w"
    have okl: "0 \<le> res (fst ?l)"
      using ok by (simp add: generate_digit_map_found [OF Some] finish_def split: if_splits)
    have okw: "0 \<le> res (fst ?w)"
    proof (rule ccontr)
      assume "\<not> 0 \<le> res (fst ?w)"
      then have "?l = ?w"
        by (cases "ctx_includes c"; cases ?w) (simp_all add: include_loop.simps)
      then show False using okl \<open>\<not> 0 \<le> res (fst ?w)\<close> by simp
    qed
    have r1: "room cap \<lparr>buf = start, len = len0, res = 0\<rparr> ?st1" using r0 by (simp add: room_def)
    have e1: "start = length (mem ?st1)" using e0 by simp
    note ws = walk_extensions_success [OF r1 e1 okw, of d]
    have rw: "room cap (fst ?w) (snd ?w)"
      using walk_extensions_room [of db ?p c start len0 ?st1 "fst ?w" "snd ?w" cap] r1 by simp
    have il: "include_loop db ?p context (ctx_includes c) (widen d (fst ?w), snd ?w) =
        (widen d (fst ?l), snd ?l)" and el: "buf (fst ?l) = length (mem (snd ?l))"
      using 1(1) [OF Some rw _ okl] ws by simp_all
    have w: "start \<le> buf (fst ?w)" "- 1 \<le> res (fst ?w)"
      using walk_extensions_range [of db ?p c start len0 ?st1 "fst ?w" "snd ?w"] by auto
    have m: "start \<le> buf (fst ?l)"
      using result_range(2) [OF w(2), of db ?p "context" "ctx_includes c"] w(1) by simp
    show ?thesis
      using okl el m ws
      by (simp add: generate_digit_map_found [OF Some] finish_def il)
  qed
next
  case (2 db prefix "context" fs)
  then show ?case by simp
next
  case (3 db prefix "context" i "is" fr st)
  let ?child = "generate_digit_map db (Some (make_newprefix prefix (snd (parse_include i))))
      (fst (parse_include i)) (buf fr) (len fr) st"
  let ?l = "include_loop db prefix context (i # is) (fr, st)"
  from 3(6,7) have r: "room cap fr st" and e: "buf fr = length (mem st)" by simp_all
  note ok = 3(8)
  consider (stop) "res fr < 0"
    | (deep) "\<not> res fr < 0" "AST_PBX_MAX_STACK db \<le> includecount st"
    | (empty) "\<not> res fr < 0" "\<not> AST_PBX_MAX_STACK db \<le> includecount st"
        "fst (parse_include i) = []"
    | (dupe) "\<not> res fr < 0" "\<not> AST_PBX_MAX_STACK db \<le> includecount st"
        "fst (parse_include i) \<noteq> []" "dupe_check st (fst (parse_include i))"
    | (rec) "\<not> res fr < 0" "\<not> AST_PBX_MAX_STACK db \<le> includecount st"
        "fst (parse_include i) \<noteq> []" "\<not> dupe_check st (fst (parse_include i))"
    by blast
  then show ?case
  proof cases
    case stop
    then show ?thesis using ok by (simp add: include_loop.simps)
  next
    case deep
    have "0 \<le> res (fst (include_loop db prefix context is (fr, warn MaxDepthExceeded st)))"
      using ok deep by (simp add: include_loop.simps)
    from 3(1) [OF deep _ _ this] r e show ?thesis
      using deep by (simp add: include_loop.simps)
  next
    case empty
    have "0 \<le> res (fst (include_loop db prefix context is (fr, warn EmptyInclude st)))"
      using ok empty by (simp add: include_loop.simps)
    from 3(2) [OF empty _ _ this] r e show ?thesis
      using empty by (simp add: include_loop.simps)
  next
    case dupe
    have "0 \<le> res (fst (include_loop db prefix context is
        (fr, warn (CircularInclude i context) st)))"
      using ok dupe by (simp add: include_loop.simps)
    from 3(3) [OF dupe _ _ this] r e show ?thesis
      using dupe by (simp add: include_loop.simps)
  next
    case rec
    have nc: "\<not> fst ?child < 0"
    proof
      assume "fst ?child < 0"
      then have "?l = absorb fr ?child"
        using rec by (simp add: include_loop.simps Let_def)
      then show False using ok \<open>fst ?child < 0\<close> by (simp add: absorb_def Let_def)
    qed
    have r0: "room cap \<lparr>buf = buf fr, len = len fr, res = 0\<rparr> st"
      using r by (simp add: room_def)
    have c: "generate_digit_map db (Some (make_newprefix prefix (snd (parse_include i))))
        (fst (parse_include i)) (buf fr) (len fr + d) st = ?child"
      and ce: "length (mem (snd ?child)) = buf fr + nat (fst ?child)"
      using 3(4) [OF rec r0 e] nc by simp_all
    have cl: "nat (fst ?child) < len fr"
      using room_inv(1) [OF r0, of db "Some (make_newprefix prefix (snd (parse_include i)))"
          "fst (parse_include i)"] nc by simp
    have ra: "room cap (fst (absorb fr ?child)) (snd (absorb fr ?child))"
      using room_inv(1) [OF r0, of db "Some (make_newprefix prefix (snd (parse_include i)))"
          "fst (parse_include i)"] nc r
      by (auto simp: absorb_def Let_def room_def)
    have ea: "buf (fst (absorb fr ?child)) = length (mem (snd (absorb fr ?child)))"
      using ce nc by (simp add: absorb_def Let_def)
    have l: "?l = include_loop db prefix context is (absorb fr ?child)"
      using rec nc by (simp add: include_loop.simps Let_def)
    have okl: "0 \<le> res (fst (include_loop db prefix context is (absorb fr ?child)))"
      using ok l by simp
    note ih = 3(5) [OF rec refl nc ra ea okl]
    have "include_loop db prefix context (i # is) (widen d fr, st) =
        include_loop db prefix context is (absorb (widen d fr) ?child)"
      using rec nc c by (simp add: include_loop.simps Let_def)
    also have "\<dots> = include_loop db prefix context is
        (widen d (fst (absorb fr ?child)), snd (absorb fr ?child))"
      using cl by (simp add: absorb_widen)
    finally show ?thesis
      using ih l by simp
  qed
qed


section \<open>A context without includes\<close>

lemma tl_concat_bar: "tl (concat (map (\<lambda>x. ''|'' @ x) xs)) = join_bar xs"
  by (induction xs rule: join_bar.induct) simp_all

lemma walk_extensions_fits:
  assumes "length (extens_text db st prefix (ctx_extensions c)) < len0" and "start = length (mem st)"
  shows "walk_extensions db prefix c start len0 st =
    (\<lparr>buf = start + length (extens_text db st prefix (ctx_extensions c)),
      len = len0 - length (extens_text db st prefix (ctx_extensions c)), res = 0\<rparr>,
     (emit (extens_text db st prefix (ctx_extensions c)) st)
       \<lparr>logs := logs st @ extens_diags (ctx_extensions c)\<rparr>)"
proof -
  let ?t = "extens_text db st prefix (ctx_extensions c)"
  have "exten_loop db prefix (ctx_extensions c) \<lparr>buf = start, len = len0, res = 0\<rparr> st =
      (advance (length ?t) \<lparr>buf = start, len = len0, res = 0\<rparr>,
       (emit ?t st)\<lparr>logs := logs st @ extens_diags (ctx_extensions c)\<rparr>)"
    using assms by (intro exten_loop_fits) simp_all
  then show ?thesis
    by (simp add: walk_extensions_def advance_def)
qed

lemma walk_extensions_overflow:
  assumes "len0 \<le> length (extens_text db st prefix (ctx_extensions c))" and "0 < len0"
    and "start = length (mem st)"
  shows "res (fst (walk_extensions db prefix c start len0 st)) = - 1"
proof -
  have "res (fst (exten_loop db prefix (ctx_extensions c)
        \<lparr>buf = start, len = len0, res = 0\<rparr> st)) = - 1"
    using assms by (intro exten_loop_overflow) simp_all
  then show ?thesis
    by (cases "exten_loop db prefix (ctx_extensions c) \<lparr>buf = start, len = len0, res = 0\<rparr> st")
      (simp add: walk_extensions_def)
qed

lemma no_includes_fits:
  assumes "ast_context_find db ctx = Some c" and "ctx_includes c = []"
    and "length (extens_text db (push_context ctx st) (prefix_or_empty prefix0) (ctx_extensions c)) < len0"
    and "start = length (mem st)"
  shows "generate_digit_map db prefix0 ctx start len0 st =
    (int (length (extens_text db (push_context ctx st) (prefix_or_empty prefix0) (ctx_extensions c))),
     pop_context
       ((emit (extens_text db (push_context ctx st) (prefix_or_empty prefix0) (ctx_extensions c))
           (push_context ctx st))
          \<lparr>logs := logs st @ extens_diags (ctx_extensions c)\<rparr>))"
  using assms
  by (simp add: generate_digit_map_found [OF assms(1)] walk_extensions_fits finish_def)

lemma no_includes_overflow:
  assumes "ast_context_find db ctx = Some c" and "ctx_includes c = []"
    and "len0 \<le> length (extens_text db (push_context ctx st) (prefix_or_empty prefix0) (ctx_extensions c))"
    and "0 < len0" and "start = length (mem st)"
  shows "fst (generate_digit_map db prefix0 ctx start len0 st) = - 1"
  using assms walk_extensions_overflow [of len0 db "push_context ctx st" "prefix_or_empty prefix0" c start]
  by (simp add: generate_digit_map_found [OF assms(1)] finish_def)

lemma ignorepat_check_root:
  "0 < AST_PBX_MAX_STACK db \<Longrightarrow>
   ignorepat_check db (push_context ctx (initial_state db)) fc = ast_ignore_pattern db ctx fc"
proof -
  assume a: "0 < AST_PBX_MAX_STACK db"
  then obtain n where n: "nat (AST_PBX_MAX_STACK db) = Suc n"
    by (cases "nat (AST_PBX_MAX_STACK db)") auto
  show ?thesis
    using a by (simp add: ignorepat_check_def push_context_def includes_store_def
        initial_state_def Let_def n)
qed

lemma extens_text_root:
  assumes "0 < AST_PBX_MAX_STACK db"
  shows "extens_text db (push_context ctx (initial_state db)) [] es =
     concat (map (\<lambda>e. ''|'' @ root_alternative db ctx e) (filter wanted es))"
proof -
  have "exten_text db (push_context ctx (initial_state db)) [] =
      (\<lambda>e. ''|'' @ root_alternative db ctx e)"
    using assms
    by (intro ext) (simp add: exten_text_def root_alternative_def ignorepat_check_root
        firstchar_of_def Let_def)
  then show ?thesis by (simp add: extens_text_def)
qed

lemma initial_state_simps [simp]:
  "mem (initial_state db) = []" "logs (initial_state db) = []"
  "includecount (initial_state db) = 0" "\<not> fault (initial_state db)"
  "length (includes_stack (initial_state db)) = nat (AST_PBX_MAX_STACK db)"
  by (simp_all add: initial_state_def)

lemma room_initial: "room BUF_SIZE \<lparr>buf = 0, len = BUF_SIZE, res = 0\<rparr> (initial_state db)"
  by (simp add: room_def BUF_SIZE_def)

text \<open>
  Claim C3. The string in the buffer, with its terminating NUL, never needs more than the
  2048 bytes of the array, whatever the dialplan: at the end of the driver the string is
  shorter than \<open>BUF_SIZE\<close>, and every append keeps the invariant \<open>room\<close> (cursor plus room
  left is the capacity, the string ends before the end of the array). An append whose text
  is as long as the room left, or longer, fails and leaves the cursor where it was; a
  shorter one advances the cursor by its length. If the expansion of the dialplan needs
  \<open>BUF_SIZE\<close> bytes or more, that is, if with any larger buffer the generation succeeds
  leaving that many bytes, then the generation with the real buffer returns \<open>-1\<close> and the
  driver prints nothing.
\<close>

theorem output_within_capacity:
  "length (mem (snd (snd (generate_digit_map_all db ctx)))) < BUF_SIZE \<and>
   (room cap fr st \<longrightarrow>
      room cap (fst (snd (buf_append s fr st))) (snd (snd (buf_append s fr st)))) \<and>
   (len fr \<le> length s \<longrightarrow>
      \<not> fst (buf_append s fr st) \<and> fst (snd (buf_append s fr st)) = fr\<lparr>res := - 1\<rparr>) \<and>
   (length s < len fr \<longrightarrow>
      fst (buf_append s fr st) \<and> fst (snd (buf_append s fr st)) = advance (length s) fr) \<and>
   (0 \<le> fst (generate_digit_map db None ctx 0 (BUF_SIZE + d) (initial_state db)) \<and>
    BUF_SIZE \<le> length (mem (snd (generate_digit_map db None ctx 0 (BUF_SIZE + d) (initial_state db))))
    \<longrightarrow> fst (generate_digit_map_all db ctx) = - 1 \<and>
        fst (snd (generate_digit_map_all db ctx)) = None)"
proof -
  let ?g = "generate_digit_map db None ctx 0 BUF_SIZE (initial_state db)"
  let ?G = "generate_digit_map db None ctx 0 (BUF_SIZE + d) (initial_state db)"
  obtain ok fr' st' where b: "buf_append s fr st = (ok, fr', st')"
    by (cases "buf_append s fr st") auto
  have m: "length (mem (snd ?g)) < BUF_SIZE"
    using room_inv(1) [OF room_initial, of db None ctx] by simp
  have 1: "length (mem (snd (snd (generate_digit_map_all db ctx)))) < BUF_SIZE"
    using m by (cases ?g) (simp add: generate_digit_map_all_def)
  have 2: "room cap fr st \<longrightarrow> room cap fr' st'"
    using buf_append_room [OF _ b] by blast
  have 3: "len fr \<le> length s \<longrightarrow> \<not> ok \<and> fr' = fr\<lparr>res := - 1\<rparr>"
    and 4: "length s < len fr \<longrightarrow> ok \<and> fr' = advance (length s) fr"
    using buf_append_frame [OF b] by auto
  have 5: "fst (generate_digit_map_all db ctx) = - 1 \<and>
        fst (snd (generate_digit_map_all db ctx)) = None"
    if G: "0 \<le> fst ?G" "BUF_SIZE \<le> length (mem (snd ?G))"
  proof -
    have "fst ?g < 0"
    proof (rule ccontr)
      assume "\<not> fst ?g < 0"
      then have "?G = ?g"
        using widen_inv(1) [OF room_initial, where ?prefix0.0 = None and ctx = ctx and d = d and db1 = db]
        by simp
      then show False using G(2) m by simp
    qed
    then have "fst ?g = - 1"
      using result_range(1) [of db None ctx 0 BUF_SIZE "initial_state db"] by simp
    then show ?thesis
      by (cases ?g) (simp add: generate_digit_map_all_def)
  qed
  show ?thesis
    using 1 2 3 4 5 by (simp add: b)
qed

lemma length_translate_N: "length (translate (replicate n (CHR ''N''))) = 5 * n"
  by (induction n) (simp_all add: translate_char_def)

lemma long_text:
  "extens_text long_db (push_context ''A'' (initial_state long_db)) [] [long_exten] =
     ''|'' @ translate (replicate 410 (CHR ''N''))"
proof -
  have w: "wanted long_exten"
    by (simp add: wanted_def special_exten_def long_exten_def)
  have "extens_text long_db (push_context ''A'' (initial_state long_db)) [] [long_exten] =
      concat (map (\<lambda>e. ''|'' @ root_alternative long_db ''A'' e) (filter wanted [long_exten]))"
    by (rule extens_text_root) (simp add: long_db_def)
  also have "\<dots> = ''|'' @ translate (replicate 410 (CHR ''N''))"
    using w by (simp add: root_alternative_def strip_sentinel_def long_exten_def long_db_def)
  finally show ?thesis .
qed

theorem output_within_capacity_witness:
  "0 \<le> fst (generate_digit_map long_db None ''A'' 0 (BUF_SIZE + 4) (initial_state long_db)) \<and>
   BUF_SIZE \<le> length (mem (snd (generate_digit_map long_db None ''A'' 0 (BUF_SIZE + 4)
                    (initial_state long_db)))) \<and>
   fst (generate_digit_map_all long_db ''A'') = - 1 \<and>
   fst (snd (generate_digit_map_all long_db ''A'')) = None \<and>
   length (mem (snd (snd (generate_digit_map_all long_db ''A'')))) < BUF_SIZE \<and>
   room BUF_SIZE tight_frame tight_state \<and> len tight_frame \<le> length ''[2-9]'' \<and>
   \<not> fst (buf_append ''[2-9]'' tight_frame tight_state) \<and>
   fst (snd (buf_append ''[2-9]'' tight_frame tight_state)) = tight_frame\<lparr>res := - 1\<rparr> \<and>
   length ''x'' < len tight_frame \<and> fst (buf_append ''x'' tight_frame tight_state) \<and>
   fst (snd (buf_append ''x'' tight_frame tight_state)) = advance 1 tight_frame"
proof -
  have f: "ast_context_find long_db ''A'' = Some \<lparr>ctx_extensions = [long_exten], ctx_includes = []\<rparr>"
    by (simp add: long_db_def)
  have g: "generate_digit_map long_db None ''A'' 0 (BUF_SIZE + 4) (initial_state long_db) =
      (2051, pop_context
        ((emit (''|'' @ translate (replicate 410 (CHR ''N'')))
            (push_context ''A'' (initial_state long_db)))
           \<lparr>logs := logs (initial_state long_db) @ extens_diags [long_exten]\<rparr>))"
    using no_includes_fits [OF f, of "initial_state long_db" None "BUF_SIZE + 4" 0]
    by (simp add: prefix_or_empty_def long_text length_translate_N BUF_SIZE_def)
  have r: "room BUF_SIZE tight_frame tight_state"
    by (simp add: room_def tight_frame_def tight_state_def BUF_SIZE_def)
  have l: "len tight_frame \<le> length ''[2-9]''" "length ''x'' < len tight_frame"
    by (simp_all add: tight_frame_def)
  have G: "0 \<le> fst (generate_digit_map long_db None ''A'' 0 (BUF_SIZE + 4) (initial_state long_db))"
    "BUF_SIZE \<le> length (mem (snd (generate_digit_map long_db None ''A'' 0 (BUF_SIZE + 4)
                    (initial_state long_db))))"
    unfolding g by (simp_all add: length_translate_N BUF_SIZE_def)
  show ?thesis
    using output_within_capacity [of long_db "''A''" BUF_SIZE tight_frame tight_state "''[2-9]''" 4]
      output_within_capacity [of long_db "''A''" BUF_SIZE tight_frame tight_state "''x''" 4] r l G
    by simp
qed


section \<open>The digit map of a single context\<close>

lemma join_bar_concat:
  assumes "xs \<noteq> []"
  shows "length (concat (map ((#) (CHR ''|'')) xs)) = length (join_bar xs) + 1"
    and "drop 1 (concat (map ((#) (CHR ''|'')) xs)) = join_bar xs"
proof -
  have t: "tl (concat (map ((#) (CHR ''|'')) xs)) = join_bar xs"
    using tl_concat_bar [of xs] by simp
  then show "drop 1 (concat (map ((#) (CHR ''|'')) xs)) = join_bar xs"
    by (simp add: drop_Suc)
  have "concat (map ((#) (CHR ''|'')) xs) \<noteq> []" using assms by (cases xs) simp_all
  then have "length (concat (map ((#) (CHR ''|'')) xs)) =
      length (tl (concat (map ((#) (CHR ''|'')) xs))) + 1"
    by (cases "concat (map ((#) (CHR ''|'')) xs)") simp_all
  then show "length (concat (map ((#) (CHR ''|'')) xs)) = length (join_bar xs) + 1"
    by (simp only: t)
qed

lemma generate_digit_map_all_result:
  "generate_digit_map db None ctx 0 BUF_SIZE (initial_state db) = (r, st) \<Longrightarrow>
   generate_digit_map_all db ctx =
     (if r \<le> 0 then (r, None, st) else (0, Some (drop 1 (mem st) @ [CHR 0x0A]), st))"
  by (simp add: generate_digit_map_all_def)

text \<open>
  Claim C4, as amended. For a root context that resolves and has no includes, the driver
  prints the \<^verbatim>\<open>|\<close>-joined alternatives of the extensions that have priority 1 and whose
  name as stored (before the sentinel is stripped) is none of \<^verbatim>\<open>a\<close>, \<^verbatim>\<open>i\<close>, \<^verbatim>\<open>s\<close>, \<^verbatim>\<open>t\<close>, in
  the order of the store, without a leading separator and followed by a newline. The
  alternative of an extension is the translation of its stripped name, with a comma after
  the translation of the first character when the ignore pattern of the root context
  matches that character. This holds when the alternatives with their separators take
  fewer than \<open>BUF_SIZE\<close> bytes; otherwise the driver returns \<open>-1\<close> and prints nothing. With
  no such extension the driver returns 0 and prints nothing.
\<close>

theorem single_context_digit_map:
  assumes "ast_context_find db ctx = Some c" and "ctx_includes c = []"
    and "0 < AST_PBX_MAX_STACK db"
  shows "(if root_alternatives db ctx c = [] then
            fst (generate_digit_map_all db ctx) = 0 \<and>
            fst (snd (generate_digit_map_all db ctx)) = None
          else if length (join_bar (root_alternatives db ctx c)) + 1 < BUF_SIZE then
            fst (generate_digit_map_all db ctx) = 0 \<and>
            fst (snd (generate_digit_map_all db ctx)) =
              Some (join_bar (root_alternatives db ctx c) @ [CHR 0x0A])
          else
            fst (generate_digit_map_all db ctx) = - 1 \<and>
            fst (snd (generate_digit_map_all db ctx)) = None)"
proof -
  let ?alts = "root_alternatives db ctx c"
  let ?st1 = "push_context ctx (initial_state db)"
  let ?t = "extens_text db ?st1 (prefix_or_empty None) (ctx_extensions c)"
  have t: "?t = concat (map ((#) (CHR ''|'')) ?alts)"
    using assms(3)
    by (simp add: prefix_or_empty_def extens_text_root root_alternatives_def comp_def)
  obtain r st where g: "generate_digit_map db None ctx 0 BUF_SIZE (initial_state db) = (r, st)"
    by (rule prod.exhaust)
  note a = generate_digit_map_all_result [OF g]
  show ?thesis
  proof (cases "length ?t < BUF_SIZE")
    case True
    from no_includes_fits [OF assms(1,2) True] g
    have r: "r = int (length ?t)" and m: "mem st = ?t"
      by simp_all
    show ?thesis
    proof (cases "?alts = []")
      case True
      then show ?thesis using r t by (simp add: a)
    next
      case False
      then have "length ?t = length (join_bar ?alts) + 1" "drop 1 ?t = join_bar ?alts"
        unfolding t by (rule join_bar_concat)+
      then show ?thesis
        using False True r m by (simp add: a)
    qed
  next
    case False
    then have l: "BUF_SIZE \<le> length ?t" by simp
    have "fst (generate_digit_map db None ctx 0 BUF_SIZE (initial_state db)) = - 1"
      using l by (intro no_includes_overflow [OF assms(1,2)]) (simp_all add: BUF_SIZE_def)
    then have r: "r = - 1" using g by simp
    have ne: "?alts \<noteq> []" using l t by (auto simp: BUF_SIZE_def)
    then have "length ?t = length (join_bar ?alts) + 1"
      unfolding t by (rule join_bar_concat)
    then show ?thesis
      using ne l r by (simp add: a)
  qed
qed

theorem single_context_digit_map_witness:
  "ast_context_find single_db ''A'' \<noteq> None \<and>
   ctx_includes (the (ast_context_find single_db ''A'')) = [] \<and>
   0 < AST_PBX_MAX_STACK single_db \<and>
   root_alternatives single_db ''A'' (the (ast_context_find single_db ''A'')) =
     [''1[2-9]xx'', ''9,S0''] \<and>
   fst (generate_digit_map_all single_db ''A'') = 0 \<and>
   fst (snd (generate_digit_map_all single_db ''A'')) = Some (''1[2-9]xx|9,S0'' @ [CHR 0x0A])"
proof -
  have f: "ast_context_find single_db ''A'' =
      Some \<lparr>ctx_extensions =
                         [\<lparr>exten_name = ''_1NXX'', exten_priority = 1\<rparr>,
                          \<lparr>exten_name = ''s'', exten_priority = 1\<rparr>,
                          \<lparr>exten_name = ''100'', exten_priority = 2\<rparr>,
                          \<lparr>exten_name = ''_9!'', exten_priority = 1\<rparr>],
                       ctx_includes = []\<rparr>"
    by (simp add: single_db_def)
  have r: "root_alternatives single_db ''A'' (the (ast_context_find single_db ''A'')) =
     [''1[2-9]xx'', ''9,S0'']"
    by code_simp
  show ?thesis
    using single_context_digit_map [OF f] r
    by (simp add: f single_db_def BUF_SIZE_def)
qed

text \<open>
  The claim as stated fails: it filters on the name without its sentinel, the code on the
  name as stored. A context whose only extension is \<^verbatim>\<open>_s\<close> at priority 1 has no extension
  left after the filter of the claim, but the driver prints \<^verbatim>\<open>s\<close>.
\<close>

theorem stripped_meta_name_counterexample:
  "spec_digit_map (ctx_extensions (the (ast_context_find meta_db ''A''))) = [] \<and>
   fst (generate_digit_map_all meta_db ''A'') = 0 \<and>
   fst (snd (generate_digit_map_all meta_db ''A'')) = Some (''s'' @ [CHR 0x0A])"
  by code_simp


section \<open>Translating twice\<close>

lemma translate_char_no_NZ:
  "CHR ''N'' \<notin> set (translate_char c)" "CHR ''Z'' \<notin> set (translate_char c)"
  "CHR ''X'' \<notin> set (translate_char c)" "CHR ''!'' \<notin> set (translate_char c)"
  by (simp_all add: translate_char_def)

lemma translate_no_NZ:
  "CHR ''N'' \<notin> set (translate name)" "CHR ''Z'' \<notin> set (translate name)"
  "CHR ''X'' \<notin> set (translate name)" "CHR ''!'' \<notin> set (translate name)"
  by (induction name) (simp_all add: translate_char_no_NZ)

lemma translate_literal:
  "CHR ''N'' \<notin> set s \<Longrightarrow> CHR ''Z'' \<notin> set s \<Longrightarrow> CHR ''X'' \<notin> set s \<Longrightarrow>
   CHR ''!'' \<notin> set s \<Longrightarrow> translate s = s"
  by (induction s) (auto simp: translate_char_def)

lemma translate_idem: "translate (translate name) = translate name"
  by (rule translate_literal) (rule translate_no_NZ)+

text \<open>
  Claim C8. With no ignore pattern in the way, the loop over a pattern appends
  \<open>translate\<close> of it, character by character as in the table. The text appended has no
  \<^verbatim>\<open>N\<close> and no \<^verbatim>\<open>Z\<close> (nor \<^verbatim>\<open>X\<close> or \<^verbatim>\<open>!\<close>); \<^verbatim>\<open>N\<close> becomes \<^verbatim>\<open>[2-9]\<close> and \<^verbatim>\<open>Z\<close> becomes
  \<^verbatim>\<open>[1-9]\<close>, and these two are copied as they are when translated again: running the loop
  on its own output appends that output unchanged.
\<close>

theorem translation_idempotent:
  assumes "length (translate name) < len fr" and "buf fr = length (mem st)"
    and "length (translate name) < len fr'" and "buf fr' = length (mem st')"
  shows "mem (snd (pattern_loop prefix ename name False pv fr st)) = mem st @ translate name \<and>
    CHR ''N'' \<notin> set (translate name) \<and> CHR ''Z'' \<notin> set (translate name) \<and>
    mem (snd (pattern_loop prefix ename' (translate name) False pv' fr' st')) =
      mem st' @ translate name \<and>
    translate (translate name) = translate name \<and>
    translate ''N'' = ''[2-9]'' \<and> translate ''Z'' = ''[1-9]'' \<and>
    translate ''[2-9]'' = ''[2-9]'' \<and> translate ''[1-9]'' = ''[1-9]''"
proof -
  have 1: "mem (snd (pattern_loop prefix ename name False pv fr st)) = mem st @ translate name"
    using assms(1,2) by (simp add: pattern_loop_fits)
  have 2: "mem (snd (pattern_loop prefix ename' (translate name) False pv' fr' st')) =
      mem st' @ translate name"
    using assms(3,4) by (simp add: pattern_loop_fits translate_idem)
  have 3: "translate ''N'' = ''[2-9]''" "translate ''Z'' = ''[1-9]''"
    "translate ''[2-9]'' = ''[2-9]''" "translate ''[1-9]'' = ''[1-9]''"
    by (simp_all add: translate_char_def)
  show ?thesis
    using 1 2 3 translate_no_NZ(1,2) [of name] translate_idem [of name] by simp
qed

theorem translation_idempotent_witness:
  "translate ''NXXZ!'' = ''[2-9]xx[1-9]S0'' \<and>
   mem (snd (pattern_loop [] ''_NXXZ!'' ''NXXZ!'' False
          \<lparr>in_pattern = 0, current_pattern_items = 0, contains_range = 0\<rparr>
          \<lparr>buf = 0, len = 20, res = 0\<rparr> (initial_state scenario_db))) = ''[2-9]xx[1-9]S0'' \<and>
   mem (snd (pattern_loop [] ''_NXXZ!'' ''[2-9]xx[1-9]S0'' False
          \<lparr>in_pattern = 0, current_pattern_items = 0, contains_range = 0\<rparr>
          \<lparr>buf = 0, len = 20, res = 0\<rparr> (initial_state scenario_db))) = ''[2-9]xx[1-9]S0''"
proof -
  show ?thesis
    using translation_idempotent [of "''NXXZ!''" "\<lparr>buf = 0, len = 20, res = 0\<rparr>"
        "initial_state scenario_db" "\<lparr>buf = 0, len = 20, res = 0\<rparr>" "initial_state scenario_db"
        "[]" "''_NXXZ!''" "\<lparr>in_pattern = 0, current_pattern_items = 0, contains_range = 0\<rparr>"
        "''_NXXZ!''" "\<lparr>in_pattern = 0, current_pattern_items = 0, contains_range = 0\<rparr>"]
    by (simp add: translate_char_def)
qed


section \<open>The marker of the second dial tone\<close>

lemma ignorepat_check_iff:
  "ignorepat_check db st fc \<longleftrightarrow>
     (\<exists>n. Some n \<in> set (take (nat (includecount st)) (includes_stack st)) \<and>
          ast_ignore_pattern db n fc)"
  by (auto simp: ignorepat_check_def list_ex_iff split: option.splits)

text \<open>
  Claim C6, as amended. Take an extension that the loop does not skip and whose
  alternative fits the buffer: the loop appends \<^verbatim>\<open>|\<close> and the alternative and goes on with
  the next extension. When the name has nothing after the sentinel, the alternative is
  the prefix alone: no marker is written, whatever the ignore pattern answers. When the
  name has at least one character after the sentinel, the first dialed digit is the first
  character of the prefix when there is a prefix, and the first character of the stripped
  name otherwise; the ignore pattern is asked for that digit in each context on the
  include stack, and the alternative has the marker \<^verbatim>\<open>,\<close> once when one of them ignores the
  digit: between the prefix and the translated pattern when there is a prefix, after the
  translation of the first character of the pattern otherwise.
\<close>

theorem second_dial_tone_marker:
  assumes "wanted e" and "length (exten_text db st prefix e) < len fr"
    and "buf fr = length (mem st)"
  shows "(case strip_sentinel (exten_name e) of
        [] \<Rightarrow> exten_text db st prefix e = ''|'' @ prefix
      | c # cs \<Rightarrow>
          firstchar_of prefix (strip_sentinel (exten_name e)) =
            (if prefix \<noteq> [] then [hd prefix] else [c]) \<and>
          (ignorepat_check db st (firstchar_of prefix (strip_sentinel (exten_name e))) \<longleftrightarrow>
            (\<exists>n. Some n \<in> set (take (nat (includecount st)) (includes_stack st)) \<and>
                 ast_ignore_pattern db n (if prefix \<noteq> [] then [hd prefix] else [c]))) \<and>
          exten_text db st prefix e =
            ''|'' @
            (if \<not> ignorepat_check db st (firstchar_of prefix (strip_sentinel (exten_name e)))
             then prefix @ translate (c # cs)
             else if prefix \<noteq> [] then prefix @ '','' @ translate (c # cs)
             else translate_char c @ '','' @ translate cs)) \<and>
    exten_loop db prefix (e # es) fr st =
      exten_loop db prefix es (advance (length (exten_text db st prefix e)) fr)
        ((emit (exten_text db st prefix e) st)\<lparr>logs := logs st @ exten_diags e\<rparr>)"
proof -
  note 4 = exten_loop_step_fits [OF assms(1,2,3), of es]
  show ?thesis
  proof (cases "strip_sentinel (exten_name e)")
    case Nil
    have "exten_text db st prefix e = ''|'' @ prefix"
      by (simp add: exten_text_def Let_def Nil)
    with 4 show ?thesis by (simp add: Nil)
  next
    case (Cons c cs)
    have 1: "firstchar_of prefix (strip_sentinel (exten_name e)) =
        (if prefix \<noteq> [] then [hd prefix] else [c])"
      by (cases prefix) (simp_all add: firstchar_of_def Cons)
    have 2: "ignorepat_check db st (firstchar_of prefix (strip_sentinel (exten_name e))) \<longleftrightarrow>
        (\<exists>n. Some n \<in> set (take (nat (includecount st)) (includes_stack st)) \<and>
             ast_ignore_pattern db n (if prefix \<noteq> [] then [hd prefix] else [c]))"
      unfolding 1 by (rule ignorepat_check_iff)
    have 3: "exten_text db st prefix e =
        ''|'' @
        (if \<not> ignorepat_check db st (firstchar_of prefix (strip_sentinel (exten_name e)))
         then prefix @ translate (c # cs)
         else if prefix \<noteq> [] then prefix @ '','' @ translate (c # cs)
         else translate_char c @ '','' @ translate cs)"
      by (simp add: exten_text_def Let_def Cons pattern_text_Cons comma_text_def)
    from 1 2 3 4 show ?thesis
      unfolding Cons list.case by (intro conjI)
  qed
qed

theorem second_dial_tone_marker_witness:
  "wanted \<lparr>exten_name = ''_1'', exten_priority = 1\<rparr> \<and>
   wanted \<lparr>exten_name = ''_'', exten_priority = 1\<rparr> \<and>
   firstchar_of ''9'' (strip_sentinel ''_1'') = ''9'' \<and>
   ignorepat_check comma_db comma_state ''9'' \<and>
   exten_text comma_db comma_state ''9'' \<lparr>exten_name = ''_1'', exten_priority = 1\<rparr> = ''|9,1'' \<and>
   exten_text comma_db comma_state ''9'' \<lparr>exten_name = ''_'', exten_priority = 1\<rparr> = ''|9'' \<and>
   exten_loop comma_db ''9'' [\<lparr>exten_name = ''_1'', exten_priority = 1\<rparr>]
       \<lparr>buf = 0, len = 8, res = 0\<rparr> comma_state =
     (\<lparr>buf = 4, len = 4, res = 0\<rparr>, comma_state\<lparr>mem := ''|9,1''\<rparr>) \<and>
   exten_loop comma_db ''9'' [\<lparr>exten_name = ''_'', exten_priority = 1\<rparr>]
       \<lparr>buf = 0, len = 8, res = 0\<rparr> comma_state =
     (\<lparr>buf = 2, len = 6, res = 0\<rparr>, comma_state\<lparr>mem := ''|9''\<rparr>)"
proof -
  have i: "ignorepat_check comma_db comma_state ''9''"
    by (simp add: ignorepat_check_def comma_db_def comma_state_def)
  have t: "exten_text comma_db comma_state ''9'' \<lparr>exten_name = ''_1'', exten_priority = 1\<rparr> = ''|9,1''"
    by (simp add: exten_text_def strip_sentinel_def firstchar_of_def i pattern_text_def
        translate_char_def)
  have t0: "exten_text comma_db comma_state ''9'' \<lparr>exten_name = ''_'', exten_priority = 1\<rparr> = ''|9''"
    by (simp add: exten_text_def strip_sentinel_def)
  have d: "exten_diags \<lparr>exten_name = ''_1'', exten_priority = 1\<rparr> = []"
    "exten_diags \<lparr>exten_name = ''_'', exten_priority = 1\<rparr> = []"
    by (simp_all add: exten_diags_def strip_sentinel_def char_track_def track_brackets_def)
  have m: "mem comma_state = []" "logs comma_state = []"
    by (simp_all add: comma_state_def)
  have e: "(emit ''|9,1'' comma_state)\<lparr>logs := []\<rparr> = comma_state\<lparr>mem := ''|9,1''\<rparr>"
    "(emit ''|9'' comma_state)\<lparr>logs := []\<rparr> = comma_state\<lparr>mem := ''|9''\<rparr>"
    by (simp_all add: emit_def comma_state_def)
  show ?thesis
    using second_dial_tone_marker [of "\<lparr>exten_name = ''_1'', exten_priority = 1\<rparr>"
        comma_db comma_state "''9''" "\<lparr>buf = 0, len = 8, res = 0\<rparr>" "[]"]
      second_dial_tone_marker [of "\<lparr>exten_name = ''_'', exten_priority = 1\<rparr>"
        comma_db comma_state "''9''" "\<lparr>buf = 0, len = 8, res = 0\<rparr>" "[]"]
    by (simp add: i t t0 d m e wanted_def special_exten_def strip_sentinel_def firstchar_of_def
        advance_def translate_char_def)
qed

text \<open>
  The claim as stated fails for a pattern with nothing after its sentinel: the marker is
  written inside the loop over the characters of the pattern, which does not run. In
  \<open>comma_db\<close> the extension \<^verbatim>\<open>_\<close> of \<^verbatim>\<open>Q\<close> is reached with the prefix \<^verbatim>\<open>9\<close>, which \<^verbatim>\<open>P\<close>
  ignores, and its alternative is \<^verbatim>\<open>9\<close> where the claim has \<^verbatim>\<open>9,\<close>; the next extension
  gets its marker.
\<close>

theorem empty_pattern_counterexample:
  "ast_ignore_pattern comma_db ''P'' (firstchar_of ''9'' (strip_sentinel ''_'')) \<and>
   spec_alternative ''9'' True (strip_sentinel ''_'') = ''9,'' \<and>
   fst (generate_digit_map_all comma_db ''P'') = 0 \<and>
   fst (snd (generate_digit_map_all comma_db ''P'')) = Some (''9|9,1'' @ [CHR 0x0A])"
  by code_simp


section \<open>A digit and a range in one bracket class\<close>

lemma is_digit_plain:
  assumes "is_digit c"
  shows "c \<noteq> CHR ''N''" "c \<noteq> CHR ''Z''" "c \<noteq> CHR ''X''" "c \<noteq> CHR ''!''"
    "c \<noteq> CHR ''[''" "c \<noteq> CHR '']''" "c \<noteq> CHR ''.''" "c \<noteq> CHR ''-''"
  using assms by (auto simp: is_digit_def)

lemma pattern_diags_append:
  "pattern_diags ename (xs @ ys) pv =
     pattern_diags ename xs pv @ pattern_diags ename ys (pattern_vars ename xs pv)"
  by (induction xs arbitrary: pv) simp_all

lemma pattern_vars_append:
  "pattern_vars ename (xs @ ys) pv = pattern_vars ename ys (pattern_vars ename xs pv)"
  by (induction xs arbitrary: pv) simp_all

lemma char_track_in_pattern:
  "0 \<le> in_pattern pv \<Longrightarrow> 0 \<le> in_pattern (fst (char_track ename c pv))"
  by (simp add: char_track_def track_brackets_def Let_def)

lemma pattern_vars_in_pattern:
  "0 \<le> in_pattern pv \<Longrightarrow> 0 \<le> in_pattern (pattern_vars ename xs pv)"
  by (induction xs arbitrary: pv) (simp_all add: char_track_in_pattern)

lemma track_open:
  "0 \<le> in_pattern pv \<Longrightarrow>
   char_track ename (CHR ''['') pv =
     (\<lparr>in_pattern = 1, current_pattern_items = 0, contains_range = 0\<rparr>,
      if 0 < in_pattern pv then [DialplanInvalid ename] else [])"
  by (simp add: char_track_def track_brackets_def Let_def)

lemma track_digit:
  "is_digit c \<Longrightarrow> in_pattern pv = 1 \<Longrightarrow>
   char_track ename c pv = (pv\<lparr>current_pattern_items := current_pattern_items pv + 1\<rparr>, [])"
  by (simp add: char_track_def track_brackets_def is_digit_plain)

lemma track_dash:
  "in_pattern pv = 1 \<Longrightarrow>
   char_track ename (CHR ''-'') pv =
     (pv\<lparr>current_pattern_items := current_pattern_items pv - 1,
         contains_range := contains_range pv + 1\<rparr>, [])"
  by (simp add: char_track_def track_brackets_def)

lemma track_item:
  assumes "item_ok i" and "in_pattern pv = 1"
  shows "pattern_vars ename (render_item i) pv =
      pv\<lparr>current_pattern_items := current_pattern_items pv + 1,
         contains_range := contains_range pv + (if is_range i then 1 else 0)\<rparr>"
    and "pattern_diags ename (render_item i) pv = []"
  using assms by (cases i; simp add: track_digit track_dash)+

lemma track_body:
  assumes "\<forall>i\<in>set items. item_ok i" and "in_pattern pv = 1"
  shows "pattern_vars ename (class_body items) pv =
      pv\<lparr>current_pattern_items := current_pattern_items pv + int (length items),
         contains_range := contains_range pv + int (length (filter is_range items))\<rparr>"
  using assms
proof (induction items arbitrary: pv)
  case Nil
  then show ?case by (simp add: class_body_def)
next
  case (Cons i items)
  have b: "class_body (i # items) = render_item i @ class_body items"
    by (simp add: class_body_def)
  from Cons.prems have i: "item_ok i" and r: "\<forall>i\<in>set items. item_ok i" by simp_all
  let ?pv = "pattern_vars ename (render_item i) pv"
  have p: "in_pattern ?pv = 1"
    by (simp add: track_item(1) [OF i Cons.prems(2)] Cons.prems(2))
  show ?case
    unfolding b pattern_vars_append Cons.IH [OF r p]
    by (simp add: track_item(1) [OF i Cons.prems(2)])
qed

lemma track_close:
  "contains_range pv \<noteq> 0 \<Longrightarrow> 1 < current_pattern_items pv \<Longrightarrow>
   CannotTranslate ename \<in> set (snd (char_track ename (CHR '']'') pv))"
  by (simp add: char_track_def track_brackets_def Let_def split: prod.splits)

lemma mixed_length:
  assumes "Digit d \<in> set items" and "DigitRange a b \<in> set items"
  shows "1 < length items" and "0 < length (filter is_range items)"
proof -
  have 1: "DigitRange a b \<in> set (filter is_range items)" using assms(2) by simp
  then show 2: "0 < length (filter is_range items)" by (cases "filter is_range items") auto
  have "Digit d \<in> set (filter (\<lambda>i. \<not> is_range i) items)" using assms(1) by simp
  then have 3: "0 < length (filter (\<lambda>i. \<not> is_range i) items)"
    by (cases "filter (\<lambda>i. \<not> is_range i) items") auto
  have "length (filter is_range items) + length (filter (\<lambda>i. \<not> is_range i) items) = length items"
    by (rule sum_length_filter_compl)
  with 2 3 show "1 < length items" by linarith
qed

lemma mixed_class_diags:
  assumes "0 \<le> in_pattern pv" and "Digit d \<in> set items" and "DigitRange a b \<in> set items"
    and "\<forall>i\<in>set items. item_ok i"
  shows "CannotTranslate ename \<in> set (pattern_diags ename (pre @ render_class items @ post) pv)"
proof -
  let ?p1 = "pattern_vars ename pre pv"
  let ?p2 = "\<lparr>in_pattern = 1, current_pattern_items = 0, contains_range = 0\<rparr>"
  let ?p3 = "pattern_vars ename (class_body items) ?p2"
  have 1: "0 \<le> in_pattern ?p1" using assms(1) by (rule pattern_vars_in_pattern)
  have 3: "?p3 = \<lparr>in_pattern = 1, current_pattern_items = int (length items),
      contains_range = int (length (filter is_range items))\<rparr>"
    using track_body [OF assms(4), of ?p2 ename] by simp
  have c: "CannotTranslate ename \<in> set (snd (char_track ename (CHR '']'') ?p3))"
    using mixed_length [OF assms(2,3)] by (intro track_close) (simp_all add: 3)
  have "pattern_diags ename (pre @ render_class items @ post) pv =
      pattern_diags ename pre pv @ snd (char_track ename (CHR ''['') ?p1) @
      pattern_diags ename (class_body items) ?p2 @
      snd (char_track ename (CHR '']'') ?p3) @
      pattern_diags ename post (fst (char_track ename (CHR '']'') ?p3))"
    by (simp add: render_class_def pattern_diags_append pattern_vars_append track_open [OF 1])
  with c show ?thesis by simp
qed

lemma translate_digit: "is_digit c \<Longrightarrow> translate_char c = [c]"
  by (simp add: translate_char_def is_digit_plain)

lemma translate_item: "item_ok i \<Longrightarrow> translate (render_item i) = render_item i"
  by (cases i) (simp_all add: translate_digit, simp add: translate_char_def)

lemma translate_class_body:
  "\<forall>i\<in>set items. item_ok i \<Longrightarrow> translate (class_body items) = class_body items"
  by (induction items) (simp_all add: class_body_def translate_item)

lemma translate_class:
  "\<forall>i\<in>set items. item_ok i \<Longrightarrow>
   translate (render_class items) = ''['' @ class_body items @ '']''"
  by (simp add: render_class_def translate_class_body translate_char_def)

lemma class_not_special:
  "strip_sentinel name = pre @ render_class items @ post \<Longrightarrow> \<not> special_exten name"
  by (auto simp: special_exten_def strip_sentinel_def render_class_def append_eq_Cons_conv
      Cons_eq_append_conv)

lemma pattern_text_class:
  assumes "\<forall>i\<in>set items. item_ok i"
  shows "\<exists>u m. pattern_text prefix ign (pre @ render_class items @ post) =
      u @ ''['' @ m @ class_body items @ '']'' @ translate post \<and>
      (m = [] \<or> m = '','' \<and> prefix = [] \<and> pre = [])"
proof (cases pre)
  case Nil
  have "pattern_text prefix ign (pre @ render_class items @ post) =
      comma_text (prefix \<noteq> []) ign @ ''['' @ comma_text (prefix = []) ign @
      class_body items @ '']'' @ translate post"
    using assms
    by (simp add: Nil render_class_def pattern_text_Cons translate_class_body translate_char_def)
  moreover have "comma_text (prefix = []) ign = [] \<or>
      comma_text (prefix = []) ign = '','' \<and> prefix = [] \<and> pre = []"
    by (simp add: comma_text_def Nil)
  ultimately show ?thesis by blast
next
  case (Cons p ps)
  have "pattern_text prefix ign (pre @ render_class items @ post) =
      (comma_text (prefix \<noteq> []) ign @ translate_char p @ comma_text (prefix = []) ign @
       translate ps) @ ''['' @ [] @ class_body items @ '']'' @ translate post"
    using assms
    by (simp add: Cons pattern_text_Cons translate_class)
  then show ?thesis by blast
qed

lemma extens_split:
  assumes "e \<in> set es" and "wanted e"
  shows "\<exists>t1 t2. extens_text db st prefix es = t1 @ exten_text db st prefix e @ t2"
    and "set (exten_diags e) \<subseteq> set (extens_diags es)"
proof -
  from assms(1) obtain es1 es2 where es: "es = es1 @ e # es2"
    by (auto dest: split_list)
  have "extens_text db st prefix es =
      extens_text db st prefix es1 @ exten_text db st prefix e @ extens_text db st prefix es2"
    using assms(2) by (simp add: es extens_text_def)
  then show "\<exists>t1 t2. extens_text db st prefix es = t1 @ exten_text db st prefix e @ t2"
    by blast
  show "set (exten_diags e) \<subseteq> set (extens_diags es)"
    using assms(2) by (auto simp: es extens_diags_def)
qed

text \<open>
  Claim C7. Take a context without includes that has, at priority 1, a pattern with a
  bracket class of digits in which there are a bare digit and a range, for example
  \<^verbatim>\<open>2[03-9]\<close>. When the alternatives of the context fit the room left in the buffer,
  \<open>generate_digit_map\<close> succeeds (its result is not negative), the warning that the pattern
  cannot be translated literally is in the log, and the buffer has, after what it had,
  the class as it was written: \<^verbatim>\<open>[\<close>, the items and \<^verbatim>\<open>]\<close>. The marker of the second dial
  tone stands between \<^verbatim>\<open>[\<close> and the items in one case: the class begins the pattern,
  there is no prefix and the first character \<^verbatim>\<open>[\<close> is ignored.
\<close>

theorem mixed_class_is_not_fatal:
  assumes "ast_context_find db ctx = Some c" and "ctx_includes c = []"
    and "e \<in> set (ctx_extensions c)" and "exten_priority e = 1"
    and "strip_sentinel (exten_name e) = pre @ render_class items @ post"
    and "Digit d \<in> set items" and "DigitRange a b \<in> set items" and "\<forall>i\<in>set items. item_ok i"
    and "length (extens_text db (push_context ctx st) (prefix_or_empty prefix0)
           (ctx_extensions c)) < len0"
    and "start = length (mem st)"
  shows "0 \<le> fst (generate_digit_map db prefix0 ctx start len0 st) \<and>
    CannotTranslate (exten_name e) \<in>
      set (logs (snd (generate_digit_map db prefix0 ctx start len0 st))) \<and>
    (\<exists>u m v. mem (snd (generate_digit_map db prefix0 ctx start len0 st)) =
        mem st @ u @ ''['' @ m @ class_body items @ '']'' @ v \<and>
        (m = [] \<or> m = '','' \<and> prefix_or_empty prefix0 = [] \<and> pre = []))"
proof -
  let ?st = "push_context ctx st"
  let ?prefix = "prefix_or_empty prefix0"
  let ?t = "extens_text db ?st ?prefix (ctx_extensions c)"
  let ?r = "generate_digit_map db prefix0 ctx start len0 st"
  have w: "wanted e"
    using class_not_special [OF assms(5)] assms(4) by (simp add: wanted_def)
  note r = no_includes_fits [OF assms(1,2,9,10)]
  have 1: "0 \<le> fst ?r" by (simp add: r)
  have l: "logs (snd ?r) = logs st @ extens_diags (ctx_extensions c)"
    by (simp add: r)
  have m: "mem (snd ?r) = mem st @ ?t"
    by (simp add: r push_context_fields)
  have "CannotTranslate (exten_name e) \<in> set (exten_diags e)"
    unfolding exten_diags_def assms(5)
    by (rule mixed_class_diags [OF _ assms(6,7,8)]) simp
  with extens_split(2) [OF assms(3) w] have 2: "CannotTranslate (exten_name e) \<in> set (logs (snd ?r))"
    unfolding l by auto
  obtain t1 t2 where t: "?t = t1 @ exten_text db ?st ?prefix e @ t2"
    using extens_split(1) [OF assms(3) w] by blast
  let ?ign = "ignorepat_check db ?st (firstchar_of ?prefix (pre @ render_class items @ post))"
  obtain u m where p: "pattern_text ?prefix ?ign (pre @ render_class items @ post) =
      u @ ''['' @ m @ class_body items @ '']'' @ translate post"
    and c: "m = [] \<or> m = '','' \<and> ?prefix = [] \<and> pre = []"
    using pattern_text_class [OF assms(8)] by blast
  have "exten_text db ?st ?prefix e =
      (''|'' @ ?prefix @ u) @ ''['' @ m @ class_body items @ '']'' @ translate post"
    by (simp add: exten_text_def Let_def assms(5) p)
  then have "mem (snd ?r) =
      mem st @ (t1 @ ''|'' @ ?prefix @ u) @ ''['' @ m @ class_body items @ '']'' @
      (translate post @ t2)"
    unfolding m t by simp
  with c have 3: "\<exists>u m v. mem (snd ?r) = mem st @ u @ ''['' @ m @ class_body items @ '']'' @ v \<and>
        (m = [] \<or> m = '','' \<and> ?prefix = [] \<and> pre = [])"
    by blast
  from 1 2 3 show ?thesis by blast
qed

theorem mixed_class_is_not_fatal_witness:
  "ast_context_find class_db ''A'' =
     Some \<lparr>ctx_extensions = [\<lparr>exten_name = ''_2[03-9]'', exten_priority = 1\<rparr>],
           ctx_includes = []\<rparr> \<and>
   strip_sentinel ''_2[03-9]'' =
     ''2'' @ render_class [Digit (CHR ''0''), DigitRange (CHR ''3'') (CHR ''9'')] @ [] \<and>
   item_ok (Digit (CHR ''0'')) \<and> item_ok (DigitRange (CHR ''3'') (CHR ''9'')) \<and>
   extens_text class_db (push_context ''A'' (initial_state class_db)) (prefix_or_empty None)
     [\<lparr>exten_name = ''_2[03-9]'', exten_priority = 1\<rparr>] = ''|2[03-9]'' \<and>
   0 \<le> fst (generate_digit_map class_db None ''A'' 0 BUF_SIZE (initial_state class_db)) \<and>
   CannotTranslate ''_2[03-9]'' \<in>
     set (logs (snd (generate_digit_map class_db None ''A'' 0 BUF_SIZE (initial_state class_db)))) \<and>
   fst (generate_digit_map_all class_db ''A'') = 0 \<and>
   fst (snd (generate_digit_map_all class_db ''A'')) = Some (''2[03-9]'' @ [CHR 0x0A])"
proof -
  have f: "ast_context_find class_db ''A'' =
     Some \<lparr>ctx_extensions = [\<lparr>exten_name = ''_2[03-9]'', exten_priority = 1\<rparr>],
           ctx_includes = []\<rparr>"
    by (simp add: class_db_def)
  have n: "strip_sentinel ''_2[03-9]'' =
     ''2'' @ render_class [Digit (CHR ''0''), DigitRange (CHR ''3'') (CHR ''9'')] @ []"
    by (simp add: strip_sentinel_def render_class_def class_body_def)
  have t: "extens_text class_db (push_context ''A'' (initial_state class_db)) (prefix_or_empty None)
     [\<lparr>exten_name = ''_2[03-9]'', exten_priority = 1\<rparr>] = ''|2[03-9]''"
    by code_simp
  have r: "generate_digit_map class_db None ''A'' 0 BUF_SIZE (initial_state class_db) =
      (8, pop_context
         ((emit ''|2[03-9]'' (push_context ''A'' (initial_state class_db)))
            \<lparr>logs := logs (initial_state class_db) @
               extens_diags [\<lparr>exten_name = ''_2[03-9]'', exten_priority = 1\<rparr>]\<rparr>))"
    using no_includes_fits [OF f, of "initial_state class_db" None BUF_SIZE 0]
    by (simp add: t BUF_SIZE_def)
  have g: "fst (generate_digit_map_all class_db ''A'') = 0"
    "fst (snd (generate_digit_map_all class_db ''A'')) = Some (''2[03-9]'' @ [CHR 0x0A])"
    by (simp_all add: generate_digit_map_all_def r)
  show ?thesis
    using mixed_class_is_not_fatal [of class_db "''A''"
        "\<lparr>ctx_extensions = [\<lparr>exten_name = ''_2[03-9]'', exten_priority = 1\<rparr>],
          ctx_includes = []\<rparr>"
        "\<lparr>exten_name = ''_2[03-9]'', exten_priority = 1\<rparr>" "''2''"
        "[Digit (CHR ''0''), DigitRange (CHR ''3'') (CHR ''9'')]" "[]" "CHR ''0''" "CHR ''3''" "CHR ''9''"
        "initial_state class_db" None BUF_SIZE 0]
    by (simp add: f n t g is_digit_def BUF_SIZE_def)
qed


section \<open>The scenario of two contexts\<close>

text \<open>
  Claim C5. In the scenario (context \<^verbatim>\<open>A\<close> with \<^verbatim>\<open>_1XXX\<close> and an include of \<^verbatim>\<open>B\<close> with
  prefix \<^verbatim>\<open>9\<close>, context \<^verbatim>\<open>B\<close> with \<^verbatim>\<open>_NXX\<close>, no ignore pattern) the driver returns 0
  and prints exactly \<^verbatim>\<open>1xxx|9[2-9]xx\<close> and a newline: the extensions of \<^verbatim>\<open>A\<close> come before
  those of its include, each alternative of \<^verbatim>\<open>B\<close> carries the prefix, and nothing is logged.
\<close>

theorem scenario_output:
  "fst (generate_digit_map_all scenario_db ''A'') = 0 \<and>
   fst (snd (generate_digit_map_all scenario_db ''A'')) = Some (''1xxx|9[2-9]xx'' @ [CHR 0x0A]) \<and>
   logs (snd (snd (generate_digit_map_all scenario_db ''A''))) = []"
  by code_simp

end
